theory Spec2Isabelle
  imports Complex_Main
begin

section \<open>Text\<close>

text \<open>
  The two programs, \<^verbatim>\<open>src/chapter-cracker.ts\<close> and \<^verbatim>\<open>src/unnamed/part_000\<close>, read the
  decoded diagnostic stream of the detection engine and the decoded output of the duration
  probe as JavaScript strings. A string is modelled as a \<^typ>\<open>string\<close>, one \<^typ>\<open>char\<close> per
  code unit, so the texts covered are those whose code units lie in U+0000..U+00FF.

  \<^verbatim>\<open>\s\<close> of a regular expression, the white space skipped by \<^verbatim>\<open>parseFloat\<close> and the white
  space removed by \<^verbatim>\<open>trim\<close> are the same set (WhiteSpace and LineTerminator of ECMAScript);
  its members below U+0100 are TAB, LF, VT, FF, CR, SPACE and NO-BREAK SPACE.
\<close>

definition is_space :: "char \<Rightarrow> bool" where
  "is_space c = (c = CHR 0x09 \<or> c = CHR 0x0A \<or> c = CHR 0x0B \<or> c = CHR 0x0C \<or> c = CHR 0x0D
     \<or> c = CHR 0x20 \<or> c = CHR 0xA0)"

text \<open>\<^verbatim>\<open>\d\<close>, and DecimalDigit of the numeric grammar: the ten ASCII digits.\<close>

definition is_digit :: "char \<Rightarrow> bool" where
  "is_digit c = (48 \<le> (of_char c :: int) \<and> (of_char c :: int) \<le> 57)"

definition digit_val :: "char \<Rightarrow> int" where
  "digit_val c = of_char c - 48"

text \<open>The value of a run of decimal digits, most significant first.\<close>

definition digits_val :: "string \<Rightarrow> int" where
  "digits_val ds = foldl (\<lambda>acc c. 10 * acc + digit_val c) 0 ds"

definition digit_char :: "int \<Rightarrow> char" where
  "digit_char d = char_of (48 + d)"

text \<open>The decimal numeral of an integer \<open>n \<ge> 0\<close>.\<close>

function show_pos :: "int \<Rightarrow> string" where
  "show_pos n = (if n < 10 then [digit_char n] else show_pos (n div 10) @ [digit_char (n mod 10)])"
  by pat_completeness auto
termination
  by (relation "measure nat") auto

declare show_pos.simps [simp del]

definition show_nat :: "nat \<Rightarrow> string" where
  "show_nat n = show_pos (int n)"

text \<open>\<^verbatim>\<open>String.prototype.trim\<close>: white space removed at both ends.\<close>

definition trim :: "string \<Rightarrow> string" where
  "trim s = rev (dropWhile is_space (rev (dropWhile is_space s)))"

text \<open>A literal at the head of a text: the rest of the text after it.\<close>

fun strip_prefix :: "string \<Rightarrow> string \<Rightarrow> string option" where
  "strip_prefix [] s = Some s"
| "strip_prefix (p # ps) [] = None"
| "strip_prefix (p # ps) (c # cs) = (if p = c then strip_prefix ps cs else None)"


section \<open>Numbers\<close>

text \<open>
  A JavaScript number is an IEEE 754 binary64 value. A finite one is modelled by the rational
  it denotes, so \<open>Fin q\<close> is only ever built with \<open>q\<close> representable; the sign of zero is not
  tracked (no operation of the programs tells \<open>-0\<close> from \<open>0\<close>: the product with 1000, the
  floor, the difference with 1, \<^verbatim>\<open>isNaN\<close> and the conversion to text agree on both).
\<close>

datatype jsnum = Fin rat | PInf | NInf | NaN

definition pow2 :: "int \<Rightarrow> rat" where
  "pow2 e = (if 0 \<le> e then 2 ^ nat e else 1 / 2 ^ nat (- e))"

definition pow10 :: "int \<Rightarrow> rat" where
  "pow10 e = (if 0 \<le> e then 10 ^ nat e else 1 / 10 ^ nat (- e))"

text \<open>The number of digits of \<open>n > 0\<close> in base \<open>b > 1\<close>.\<close>

function ndigits :: "int \<Rightarrow> int \<Rightarrow> int" where
  "ndigits b n = (if n \<le> 0 \<or> b \<le> 1 then 0 else 1 + ndigits b (n div b))"
  by pat_completeness auto
termination
  by (relation "measure (\<lambda>(b, n). nat n)") (auto simp: int_div_less_self)

declare ndigits.simps [simp del]

text \<open>\<open>floor_log b q\<close> is the integer \<open>k\<close> with \<open>b ^ k \<le> q < b ^ (k + 1)\<close>, for \<open>q > 0\<close>.\<close>

definition bpow :: "int \<Rightarrow> int \<Rightarrow> rat" where
  "bpow b e = (if 0 \<le> e then of_int b ^ nat e else 1 / of_int b ^ nat (- e))"

definition floor_log :: "int \<Rightarrow> rat \<Rightarrow> int" where
  "floor_log b q =
     (let (n, d) = quotient_of q;
          k = ndigits b n - ndigits b d
      in if bpow b k \<le> q then k else k - 1)"

text \<open>Rounding to the nearest integer, ties to the even one.\<close>

definition round_even :: "rat \<Rightarrow> int" where
  "round_even q =
     (let f = \<lfloor>q\<rfloor>; r = q - of_int f
      in if r < 1 / 2 then f else if 1 / 2 < r then f + 1 else if even f then f else f + 1)"

text \<open>
  Rounding a rational to binary64, round-to-nearest, ties to even: 53 significant bits, the
  least exponent of the last place \<open>-1074\<close> (subnormals), overflow to infinity from \<open>2 ^ 1024\<close>.
\<close>

definition round_double :: "rat \<Rightarrow> jsnum" where
  "round_double q =
     (if q = 0 then Fin 0
      else
        let a = \<bar>q\<bar>;
            e = max (- 1074) (floor_log 2 a - 52);
            v = of_int (round_even (a / pow2 e)) * pow2 e
        in if 2 ^ 1024 \<le> v then (if 0 < q then PInf else NInf)
           else Fin (if 0 < q then v else - v))"

text \<open>The operators \<^verbatim>\<open>*\<close> and \<^verbatim>\<open>-\<close>, \<^verbatim>\<open>Math.floor\<close>, \<^verbatim>\<open>isNaN\<close>, and the comparisons \<^verbatim>\<open>>\<close> and \<^verbatim>\<open>>=\<close> on numbers.\<close>

fun js_neg :: "jsnum \<Rightarrow> jsnum" where
  "js_neg (Fin q) = Fin (- q)"
| "js_neg PInf = NInf"
| "js_neg NInf = PInf"
| "js_neg NaN = NaN"

fun js_mul :: "jsnum \<Rightarrow> jsnum \<Rightarrow> jsnum" where
  "js_mul NaN _ = NaN"
| "js_mul _ NaN = NaN"
| "js_mul (Fin a) (Fin b) = round_double (a * b)"
| "js_mul (Fin a) PInf = (if a = 0 then NaN else if 0 < a then PInf else NInf)"
| "js_mul (Fin a) NInf = (if a = 0 then NaN else if 0 < a then NInf else PInf)"
| "js_mul PInf (Fin b) = (if b = 0 then NaN else if 0 < b then PInf else NInf)"
| "js_mul NInf (Fin b) = (if b = 0 then NaN else if 0 < b then NInf else PInf)"
| "js_mul PInf PInf = PInf"
| "js_mul PInf NInf = NInf"
| "js_mul NInf PInf = NInf"
| "js_mul NInf NInf = PInf"

fun js_sub :: "jsnum \<Rightarrow> jsnum \<Rightarrow> jsnum" where
  "js_sub NaN _ = NaN"
| "js_sub _ NaN = NaN"
| "js_sub (Fin a) (Fin b) = round_double (a - b)"
| "js_sub (Fin a) PInf = NInf"
| "js_sub (Fin a) NInf = PInf"
| "js_sub PInf (Fin b) = PInf"
| "js_sub NInf (Fin b) = NInf"
| "js_sub PInf PInf = NaN"
| "js_sub PInf NInf = PInf"
| "js_sub NInf PInf = NInf"
| "js_sub NInf NInf = NaN"

fun js_floor :: "jsnum \<Rightarrow> jsnum" where
  "js_floor (Fin q) = Fin (of_int \<lfloor>q\<rfloor>)"
| "js_floor x = x"

fun isNaN :: "jsnum \<Rightarrow> bool" where
  "isNaN NaN = True"
| "isNaN _ = False"

fun js_gt :: "jsnum \<Rightarrow> jsnum \<Rightarrow> bool" where
  "js_gt NaN _ = False"
| "js_gt _ NaN = False"
| "js_gt (Fin a) (Fin b) = (b < a)"
| "js_gt PInf PInf = False"
| "js_gt PInf _ = True"
| "js_gt NInf _ = False"
| "js_gt (Fin a) NInf = True"
| "js_gt (Fin a) PInf = False"

fun js_ge :: "jsnum \<Rightarrow> jsnum \<Rightarrow> bool" where
  "js_ge NaN _ = False"
| "js_ge _ NaN = False"
| "js_ge (Fin a) (Fin b) = (b \<le> a)"
| "js_ge PInf _ = True"
| "js_ge NInf NInf = True"
| "js_ge NInf _ = False"
| "js_ge (Fin a) NInf = True"
| "js_ge (Fin a) PInf = False"


subsection \<open>Numbers to text\<close>

text \<open>
  \<^verbatim>\<open>Number.prototype.toString\<close>, which a template literal applies to a number. For a finite
  \<open>v > 0\<close> it takes integers \<open>n\<close>, \<open>k \<ge> 1\<close> and \<open>s\<close> with \<open>10 ^ (k - 1) \<le> s < 10 ^ k\<close> such
  that \<open>s * 10 ^ (n - k)\<close> rounds to \<open>v\<close>, with \<open>k\<close> least, and of several \<open>s\<close> the one closest
  to \<open>v\<close>. \<open>try_digits v n0 k\<close> looks for such a pair \<open>(s, n)\<close> with \<open>k\<close> digits, where
  \<open>10 ^ (n0 - 1) \<le> v < 10 ^ n0\<close>: only the two \<open>k\<close>-digit decimals around \<open>v\<close> can qualify.
  Seventeen digits are enough for every binary64 value, so the search goes no further.
\<close>

definition try_digits :: "rat \<Rightarrow> int \<Rightarrow> nat \<Rightarrow> (int \<times> int) option" where
  "try_digits v n0 k =
     (let u = pow10 (n0 - int k);
          lo = \<lfloor>v / u\<rfloor>;
          hi = lo + 1;
          ok_lo = (round_double (of_int lo * u) = Fin v);
          ok_hi = (round_double (of_int hi * u) = Fin v);
          d_lo = v - of_int lo * u;
          d_hi = of_int hi * u - v;
          pick_hi = (ok_hi \<and> (\<not> ok_lo \<or> d_hi < d_lo \<or> (d_hi = d_lo \<and> even hi)))
      in if pick_hi then Some (if hi = 10 ^ k then (10 ^ (k - 1), n0 + 1) else (hi, n0))
         else if ok_lo then Some (lo, n0)
         else None)"

function shortest_digits :: "rat \<Rightarrow> int \<Rightarrow> nat \<Rightarrow> int \<times> int" where
  "shortest_digits v n0 k =
     (case try_digits v n0 k of
        Some r \<Rightarrow> r
      | None \<Rightarrow> if 17 \<le> k then (\<lfloor>v / pow10 (n0 - int k)\<rfloor>, n0)
                else shortest_digits v n0 (Suc k))"
  by pat_completeness auto
termination
  by (relation "measure (\<lambda>(v, n0, k). 17 - k)") auto

declare shortest_digits.simps [simp del]

text \<open>The layout of the digits \<open>ds\<close> of \<open>s\<close> for the decimal exponent \<open>n\<close>.\<close>

definition layout :: "string \<Rightarrow> int \<Rightarrow> string" where
  "layout ds n =
     (let k = int (length ds) in
      if k \<le> n \<and> n \<le> 21 then ds @ replicate (nat (n - k)) (CHR ''0'')
      else if 0 < n \<and> n \<le> 21 then take (nat n) ds @ ''.'' @ drop (nat n) ds
      else if - 6 < n \<and> n \<le> 0 then ''0.'' @ replicate (nat (- n)) (CHR ''0'') @ ds
      else
        let e = n - 1;
            es = (if e < 0 then ''-'' else ''+'') @ show_pos \<bar>e\<bar>
        in if k = 1 then ds @ ''e'' @ es
           else take 1 ds @ ''.'' @ drop 1 ds @ ''e'' @ es)"

text \<open>A positive finite number: the search from one digit on, then the layout.\<close>

definition pos_to_string :: "rat \<Rightarrow> string" where
  "pos_to_string v =
     (let (s, n) = shortest_digits v (floor_log 10 v + 1) 1
      in layout (show_pos s) n)"

fun numToString :: "jsnum \<Rightarrow> string" where
  "numToString NaN = ''NaN''"
| "numToString PInf = ''Infinity''"
| "numToString NInf = ''-Infinity''"
| "numToString (Fin q) =
     (if q = 0 then ''0''
      else if q < 0 then ''-'' @ pos_to_string (- q)
      else pos_to_string q)"


subsection \<open>Text to numbers\<close>

text \<open>
  \<^verbatim>\<open>parseFloat\<close>: leading white space is skipped, then the longest prefix that is a
  StrDecimalLiteral is read (an optional sign, then \<^verbatim>\<open>Infinity\<close>, or digits with an optional
  fraction and an optional exponent, or a fraction starting with the point); whatever follows
  is ignored, and \<open>NaN\<close> is the result when there is no such prefix. The decimal is rounded to
  the nearest binary64 value.
\<close>

definition parse_exponent :: "string \<Rightarrow> int" where
  "parse_exponent s =
     (case s of
        [] \<Rightarrow> 0
      | c # r \<Rightarrow>
          if c = CHR ''e'' \<or> c = CHR ''E'' then
            (case r of
               [] \<Rightarrow> 0
             | g # ds \<Rightarrow>
                 if g = CHR ''+'' then
                   (if takeWhile is_digit ds = [] then 0 else digits_val (takeWhile is_digit ds))
                 else if g = CHR ''-'' then
                   (if takeWhile is_digit ds = [] then 0 else - digits_val (takeWhile is_digit ds))
                 else if takeWhile is_digit r = [] then 0
                 else digits_val (takeWhile is_digit r))
          else 0)"

definition decimal_value :: "string \<Rightarrow> string \<Rightarrow> int \<Rightarrow> jsnum" where
  "decimal_value ip fp e =
     round_double (of_int (digits_val (ip @ fp)) * pow10 (e - int (length fp)))"

definition parse_unsigned :: "string \<Rightarrow> jsnum" where
  "parse_unsigned s =
     (if strip_prefix ''Infinity'' s \<noteq> None then PInf
      else
        let ip = takeWhile is_digit s;
            r1 = dropWhile is_digit s
        in if r1 \<noteq> [] \<and> hd r1 = CHR ''.'' then
             (let fp = takeWhile is_digit (tl r1);
                  r2 = dropWhile is_digit (tl r1)
              in if ip = [] \<and> fp = [] then NaN
                 else decimal_value ip fp (parse_exponent r2))
           else if ip = [] then NaN
           else decimal_value ip [] (parse_exponent r1))"

definition parseFloat :: "string \<Rightarrow> jsnum" where
  "parseFloat s =
     (let t = dropWhile is_space s
      in if t \<noteq> [] \<and> hd t = CHR ''+'' then parse_unsigned (tl t)
         else if t \<noteq> [] \<and> hd t = CHR ''-'' then js_neg (parse_unsigned (tl t))
         else parse_unsigned t)"


section \<open>The silence report\<close>

text \<open>
  \<^verbatim>\<open>src/chapter-cracker.ts\<close> scans the report with
  \<^verbatim>\<open>/silence_start:\s*(\d+\.?\d*)/g\<close> and \<^verbatim>\<open>/silence_end:\s*(\d+\.?\d*)/g\<close>. One attempt
  at the head of a text: the marker, any white space, one digit or more, an optional point,
  any digits. The pieces of the pattern accept disjoint characters, so the greedy match is
  the only one. The result is the captured group and the text after the match.
\<close>

definition match_strict :: "string \<Rightarrow> string \<Rightarrow> (string \<times> string) option" where
  "match_strict marker s =
     (case strip_prefix marker s of
        None \<Rightarrow> None
      | Some r \<Rightarrow>
          let r1 = dropWhile is_space r;
              ip = takeWhile is_digit r1;
              r2 = dropWhile is_digit r1
          in if ip = [] then None
             else if r2 \<noteq> [] \<and> hd r2 = CHR ''.''
               then Some (ip @ ''.'' @ takeWhile is_digit (tl r2), dropWhile is_digit (tl r2))
             else Some (ip, r2))"

text \<open>
  \<^verbatim>\<open>src/unnamed/part_000\<close> scans with \<^verbatim>\<open>/silence_start:\s*([\d.]+)/g\<close> and
  \<^verbatim>\<open>/silence_end:\s*([\d.]+)/g\<close>: the group is one character or more, each a digit or a
  point.
\<close>

definition is_numch :: "char \<Rightarrow> bool" where
  "is_numch c = (is_digit c \<or> c = CHR ''.'')"

definition match_loose :: "string \<Rightarrow> string \<Rightarrow> (string \<times> string) option" where
  "match_loose marker s =
     (case strip_prefix marker s of
        None \<Rightarrow> None
      | Some r \<Rightarrow>
          let r1 = dropWhile is_space r;
              cap = takeWhile is_numch r1
          in if cap = [] then None else Some (cap, dropWhile is_numch r1))"

lemma strip_prefix_length: "strip_prefix p s = Some r \<Longrightarrow> length r \<le> length s"
  by (induction p s rule: strip_prefix.induct) (auto split: if_splits)

lemma match_strict_shorter:
  assumes "match_strict marker s = Some (cap, rest)"
  shows "length rest < length s"
proof -
  from assms obtain r where r: "strip_prefix marker s = Some r"
    by (auto simp: match_strict_def split: option.splits)
  define r1 where "r1 = dropWhile is_space r"
  have l1: "length r1 \<le> length s"
    using strip_prefix_length [OF r] length_dropWhile_le [of is_space r] by (simp add: r1_def)
  have ne: "takeWhile is_digit r1 \<noteq> []"
    using assms r by (auto simp: match_strict_def r1_def Let_def split: if_splits)
  have l2: "length (dropWhile is_digit r1) < length r1"
  proof -
    have "length (takeWhile is_digit r1) + length (dropWhile is_digit r1) = length r1"
      by (metis length_append takeWhile_dropWhile_id)
    with ne show ?thesis by (cases "takeWhile is_digit r1") auto
  qed
  have l3: "length (dropWhile is_digit (tl (dropWhile is_digit r1))) \<le> length (dropWhile is_digit r1)"
    using length_dropWhile_le [of is_digit "tl (dropWhile is_digit r1)"] by simp
  have "rest = dropWhile is_digit r1 \<or> rest = dropWhile is_digit (tl (dropWhile is_digit r1))"
    using assms r by (auto simp: match_strict_def r1_def Let_def split: if_splits)
  with l1 l2 l3 show ?thesis by auto
qed

lemma match_loose_shorter:
  assumes "match_loose marker s = Some (cap, rest)"
  shows "length rest < length s"
proof -
  from assms obtain r where r: "strip_prefix marker s = Some r"
    by (auto simp: match_loose_def split: option.splits)
  define r1 where "r1 = dropWhile is_space r"
  have l1: "length r1 \<le> length s"
    using strip_prefix_length [OF r] length_dropWhile_le [of is_space r] by (simp add: r1_def)
  have ne: "takeWhile is_numch r1 \<noteq> []" and rest: "rest = dropWhile is_numch r1"
    using assms r by (auto simp: match_loose_def r1_def Let_def split: if_splits)
  have "length (takeWhile is_numch r1) + length (dropWhile is_numch r1) = length r1"
    by (metis length_append takeWhile_dropWhile_id)
  with ne have "length (dropWhile is_numch r1) < length r1"
    by (cases "takeWhile is_numch r1") auto
  with l1 rest show ?thesis by simp
qed

text \<open>
  The loop \<^verbatim>\<open>while ((match = regex.exec(text)) !== null) array.push(parseFloat(match[1]))\<close>.
  A global regular expression resumes at the end of the previous match and takes the
  leftmost match from there: the attempt is made at the head of the remaining text, then one
  character further, until the text is used up. The function returns the array.
\<close>

function exec_strict :: "string \<Rightarrow> string \<Rightarrow> jsnum list" where
  "exec_strict marker s =
     (case match_strict marker s of
        Some (cap, rest) \<Rightarrow> parseFloat cap # exec_strict marker rest
      | None \<Rightarrow> (case s of [] \<Rightarrow> [] | c # cs \<Rightarrow> exec_strict marker cs))"
  by pat_completeness auto
termination
  by (relation "measure (\<lambda>(marker, s). length s)") (auto simp: match_strict_shorter)

function exec_loose :: "string \<Rightarrow> string \<Rightarrow> jsnum list" where
  "exec_loose marker s =
     (case match_loose marker s of
        Some (cap, rest) \<Rightarrow> parseFloat cap # exec_loose marker rest
      | None \<Rightarrow> (case s of [] \<Rightarrow> [] | c # cs \<Rightarrow> exec_loose marker cs))"
  by pat_completeness auto
termination
  by (relation "measure (\<lambda>(marker, s). length s)") (auto simp: match_loose_shorter)

declare exec_strict.simps [simp del] exec_loose.simps [simp del]

text \<open>The two arrays of each program.\<close>

definition silenceStarts_cc :: "string \<Rightarrow> jsnum list" where
  "silenceStarts_cc silenceStderr = exec_strict ''silence_start:'' silenceStderr"

definition silenceEnds_cc :: "string \<Rightarrow> jsnum list" where
  "silenceEnds_cc silenceStderr = exec_strict ''silence_end:'' silenceStderr"

definition silenceStarts_p0 :: "string \<Rightarrow> jsnum list" where
  "silenceStarts_p0 silenceStderr = exec_loose ''silence_start:'' silenceStderr"

definition silenceEnds_p0 :: "string \<Rightarrow> jsnum list" where
  "silenceEnds_p0 silenceStderr = exec_loose ''silence_end:'' silenceStderr"


section \<open>Chapter markers\<close>

text \<open>
  Both programs build the chapters with the same statements: the first chapter at \<open>0\<close>, then
  \<^verbatim>\<open>silenceEnds.forEach((time, index) => chapters.push({start: time, title: `Chapter ${index + 2}`}))\<close>.
  The index is an array index, printed as its decimal numeral.
\<close>

record Chapter =
  start :: jsnum
  title :: string

fun forEach_push :: "Chapter list \<Rightarrow> nat \<Rightarrow> jsnum list \<Rightarrow> Chapter list" where
  "forEach_push chs index [] = chs"
| "forEach_push chs index (time # rest) =
     forEach_push (chs @ [\<lparr>start = time, title = ''Chapter '' @ show_nat (index + 2)\<rparr>])
       (index + 1) rest"

definition chapters :: "jsnum list \<Rightarrow> Chapter list" where
  "chapters silenceEnds = forEach_push [\<lparr>start = Fin 0, title = ''Chapter 1''\<rparr>] 0 silenceEnds"


section \<open>The metadata document\<close>

text \<open>
  The two values computed for chapter \<open>i\<close>, by the same expressions in both programs:
  \<^verbatim>\<open>Math.floor(chapters[i].start * 1000)\<close>, and for the end
  \<^verbatim>\<open>Math.floor(chapters[i + 1].start * 1000) - 1\<close> when \<^verbatim>\<open>i < chapters.length - 1\<close>,
  \<^verbatim>\<open>Math.floor(totalDuration * 1000)\<close> otherwise. Both are read only for \<open>i\<close> below the
  length, where the indices are in range.
\<close>

definition startMs :: "Chapter list \<Rightarrow> nat \<Rightarrow> jsnum" where
  "startMs chs i = js_floor (js_mul (start (chs ! i)) (Fin 1000))"

definition endMs :: "Chapter list \<Rightarrow> jsnum \<Rightarrow> nat \<Rightarrow> jsnum" where
  "endMs chs totalDuration i =
     (if int i < int (length chs) - 1
      then js_sub (js_floor (js_mul (start (chs ! (i + 1))) (Fin 1000))) (Fin 1)
      else js_floor (js_mul totalDuration (Fin 1000)))"

text \<open>The loop of \<^verbatim>\<open>src/chapter-cracker.ts\<close>, which appends as it computes.\<close>

function metadata_loop_cc :: "Chapter list \<Rightarrow> jsnum \<Rightarrow> nat \<Rightarrow> string \<Rightarrow> string" where
  "metadata_loop_cc chs totalDuration i metadata =
     (if i < length chs then
        let m1 = metadata @ ''[CHAPTER]\<newline>TIMEBASE=1/1000\<newline>'';
            m2 = m1 @ ''START='' @ numToString (startMs chs i) @ ''\<newline>'';
            m3 = m2 @ ''END='' @ numToString (endMs chs totalDuration i) @ ''\<newline>'';
            m4 = m3 @ ''title='' @ title (chs ! i) @ ''\<newline>\<newline>''
        in metadata_loop_cc chs totalDuration (i + 1) m4
      else metadata)"
  by pat_completeness auto
termination
  by (relation "measure (\<lambda>(chs, d, i, m). length chs - i)") auto

text \<open>The loop of \<^verbatim>\<open>src/unnamed/part_000\<close>, which computes both values first.\<close>

function metadata_loop_p0 :: "Chapter list \<Rightarrow> jsnum \<Rightarrow> nat \<Rightarrow> string \<Rightarrow> string" where
  "metadata_loop_p0 chs totalDuration i metadata =
     (if i < length chs then
        let s = startMs chs i;
            e = endMs chs totalDuration i;
            m1 = metadata @ ''[CHAPTER]\<newline>'';
            m2 = m1 @ ''TIMEBASE=1/1000\<newline>'';
            m3 = m2 @ ''START='' @ numToString s @ ''\<newline>'';
            m4 = m3 @ ''END='' @ numToString e @ ''\<newline>'';
            m5 = m4 @ ''title='' @ title (chs ! i) @ ''\<newline>\<newline>''
        in metadata_loop_p0 chs totalDuration (i + 1) m5
      else metadata)"
  by pat_completeness auto
termination
  by (relation "measure (\<lambda>(chs, d, i, m). length chs - i)") auto

declare metadata_loop_cc.simps [simp del] metadata_loop_p0.simps [simp del]

definition metadata_cc :: "Chapter list \<Rightarrow> jsnum \<Rightarrow> string" where
  "metadata_cc chs totalDuration = metadata_loop_cc chs totalDuration 0 '';FFMETADATA1\<newline>''"

definition metadata_p0 :: "Chapter list \<Rightarrow> jsnum \<Rightarrow> string" where
  "metadata_p0 chs totalDuration = metadata_loop_p0 chs totalDuration 0 '';FFMETADATA1\<newline>''"


section \<open>The two programs\<close>

text \<open>
  What a child process hands back: its exit status and its two piped outputs. A run is
  modelled from the two processes (silence detection, duration probe) to the text written to
  \<^verbatim>\<open>chapters.txt\<close>; a run that ends before that is an error. \<open>ExternalToolFailure\<close> and
  \<open>InvalidDuration\<close> are the specification's names for the stops of
  \<^verbatim>\<open>src/unnamed/part_000\<close> (a message, then \<^verbatim>\<open>exit(1)\<close>); \<open>TypeError\<close> is the exception
  of the language for a call of something that is not a function.
\<close>

record proc =
  exitCode :: int
  stdout :: string
  stderr :: string

datatype error = ExternalToolFailure string | InvalidDuration | TypeError

text \<open>
  \<^verbatim>\<open>src/chapter-cracker.ts\<close> starts its processes with \<^verbatim>\<open>Bun.spawn\<close>, which hands back each
  piped output as a stream (a \<^verbatim>\<open>ReadableStream\<close>), and reads it with
  \<^verbatim>\<open>await silenceProc.stdout.arrayBuffer()\<close>. A stream has no method of that name: the
  property is \<^verbatim>\<open>undefined\<close> and the call throws a \<open>TypeError\<close>, whatever the stream holds.
\<close>

definition arrayBuffer :: "string \<Rightarrow> error + string" where
  "arrayBuffer stream = Inl TypeError"

text \<open>
  \<^verbatim>\<open>main\<close> of \<^verbatim>\<open>src/chapter-cracker.ts\<close>, statement by statement: the two reads of the
  detection's outputs, the scan of the decoded diagnostic text, the read of the probe's
  output, the duration, the chapters and the document. No statement reads an exit status or
  tests the duration. An exception rejects the promise of \<^verbatim>\<open>main\<close>, and the handler
  \<^verbatim>\<open>main().catch\<close> prints it and calls \<^verbatim>\<open>exit(1)\<close>.
\<close>

definition main_cc :: "proc \<Rightarrow> proc \<Rightarrow> error + string" where
  "main_cc silenceProc ffprobeProc =
     (case arrayBuffer (stdout silenceProc) of
        Inl err \<Rightarrow> Inl err
      | Inr silenceStdout \<Rightarrow>
          (case arrayBuffer (stderr silenceProc) of
             Inl err \<Rightarrow> Inl err
           | Inr silenceStderr \<Rightarrow>
               let silenceEnds = silenceEnds_cc silenceStderr
               in (case arrayBuffer (stdout ffprobeProc) of
                     Inl err \<Rightarrow> Inl err
                   | Inr probeStdout \<Rightarrow>
                       let totalDuration = parseFloat (trim probeStdout)
                       in Inr (metadata_cc (chapters silenceEnds) totalDuration))))"

text \<open>
  \<^verbatim>\<open>main\<close> of \<^verbatim>\<open>src/unnamed/part_000\<close>, which starts its processes with \<^verbatim>\<open>Bun.spawnSync\<close>
  and decodes the buffers it hands back. It stops when the detection exits with a status
  other than \<open>0\<close> (after printing its diagnostic text), when the probe does (after printing
  the probe's), and when the duration is \<open>NaN\<close>.
\<close>

definition main_p0 :: "proc \<Rightarrow> proc \<Rightarrow> error + string" where
  "main_p0 silenceProc ffprobeProc =
     (if exitCode silenceProc \<noteq> 0 then Inl (ExternalToolFailure (stderr silenceProc))
      else
        let silenceEnds = silenceEnds_p0 (stderr silenceProc)
        in if exitCode ffprobeProc \<noteq> 0 then Inl (ExternalToolFailure (stderr ffprobeProc))
           else
             let totalDuration = parseFloat (trim (stdout ffprobeProc))
             in if isNaN totalDuration then Inl InvalidDuration
                else Inr (metadata_p0 (chapters silenceEnds) totalDuration))"


section \<open>Notions the claims are stated with\<close>

text \<open>An integer numeral: decimal digits, after a minus sign for a negative integer.\<close>

definition show_int :: "int \<Rightarrow> string" where
  "show_int n = (if n < 0 then ''-'' @ show_pos (- n) else show_pos n)"

definition is_int_numeral :: "string \<Rightarrow> bool" where
  "is_int_numeral s =
     (case s of
        [] \<Rightarrow> False
      | c # r \<Rightarrow> if c = CHR ''-'' then r \<noteq> [] \<and> list_all is_digit r else list_all is_digit s)"

text \<open>
  One record of the document, as the chapter-metadata format lays it out: the section line,
  the time base, the start and the end in milliseconds, the title, then an empty line.
\<close>

definition chapter_record :: "string \<Rightarrow> string \<Rightarrow> string \<Rightarrow> string" where
  "chapter_record s e t =
     ''[CHAPTER]\<newline>'' @ ''TIMEBASE=1/1000\<newline>'' @ ''START='' @ s @ ''\<newline>'' @
     ''END='' @ e @ ''\<newline>'' @ ''title='' @ t @ ''\<newline>\<newline>''"

definition record_of :: "Chapter list \<Rightarrow> jsnum \<Rightarrow> nat \<Rightarrow> string" where
  "record_of chs D i =
     chapter_record (numToString (startMs chs i)) (numToString (endMs chs D i)) (title (chs ! i))"

text \<open>
  The start and the end of chapter \<open>i\<close> in milliseconds, read from the silence ends \<open>S\<close> and
  the duration \<open>D\<close>: the start is the floor of a thousand times the chapter's start (\<open>0\<close>, then
  the silence ends), the end of a chapter that is not the last is the start of the next in
  milliseconds minus one, the end of the last is the floor of a thousand times the duration.
\<close>

definition START_ms :: "jsnum list \<Rightarrow> nat \<Rightarrow> jsnum" where
  "START_ms S i = js_floor (js_mul ((Fin 0 # S) ! i) (Fin 1000))"

definition END_ms :: "jsnum list \<Rightarrow> jsnum \<Rightarrow> nat \<Rightarrow> jsnum" where
  "END_ms S D i =
     (if i < length S then js_sub (START_ms S (i + 1)) (Fin 1)
      else js_floor (js_mul D (Fin 1000)))"

text \<open>
  \<open>dot_free marker s\<close>: no occurrence of the marker in the text is followed, after any white
  space, by a point.
\<close>

definition no_dot_here :: "string \<Rightarrow> string \<Rightarrow> bool" where
  "no_dot_here marker s =
     (case strip_prefix marker s of
        None \<Rightarrow> True
      | Some r \<Rightarrow> (case dropWhile is_space r of [] \<Rightarrow> True | c # cs \<Rightarrow> c \<noteq> CHR ''.''))"

fun dot_free :: "string \<Rightarrow> string \<Rightarrow> bool" where
  "dot_free marker [] = no_dot_here marker []"
| "dot_free marker (c # cs) = (no_dot_here marker (c # cs) \<and> dot_free marker cs)"











section \<open>Integers among the numbers\<close>

lemma ndigits_le: "0 < n \<Longrightarrow> n < 2 ^ k \<Longrightarrow> ndigits 2 n \<le> int k"
proof (induction k arbitrary: n)
  case 0
  then show ?case by simp
next
  case (Suc k)
  show ?case
  proof (cases "n div 2 = 0")
    case True
    then show ?thesis using Suc.prems
      by (subst ndigits.simps, subst ndigits.simps) simp
  next
    case False
    with Suc.prems have pos: "0 < n div 2" by (simp add: pos_imp_zdiv_pos_iff)
    from Suc.prems have "n div 2 < 2 ^ k" by simp
    from Suc.IH [OF pos this] show ?thesis using Suc.prems
      by (subst ndigits.simps) simp
  qed
qed

lemma ndigits_one: "ndigits 2 1 = 1"
  by (subst ndigits.simps, subst ndigits.simps) simp

lemma round_even_int: "round_even (of_int m) = m"
  by (simp add: round_even_def)

lemma round_even_nonneg: "0 \<le> q \<Longrightarrow> 0 \<le> round_even q"
proof -
  assume "0 \<le> q"
  then have "0 \<le> \<lfloor>q\<rfloor>" by simp
  then show ?thesis by (simp add: round_even_def Let_def)
qed

lemma pow2_pos: "0 < pow2 e"
  by (simp add: pow2_def)

lemma pow10_pos: "0 < pow10 e"
  by (simp add: pow10_def)

lemma floor_log_int_le:
  assumes "0 < n" "n < 2 ^ k"
  shows "floor_log 2 (of_int n) \<le> int k - 1"
proof -
  have "ndigits 2 n \<le> int k" using assms by (rule ndigits_le)
  then show ?thesis
    by (simp add: floor_log_def ndigits_one Let_def)
qed

text \<open>An integer below \<open>2 ^ 53\<close> in magnitude is a binary64 value: rounding leaves it as it is.\<close>

lemma significand_int:
  assumes "0 < n" "n < 2 ^ 53"
  defines "e \<equiv> max (- 1074) (floor_log 2 (of_int n) - 52)"
  shows "of_int (round_even (of_int n / pow2 e)) * pow2 e = (of_int n :: rat)"
proof -
  have e0: "e \<le> 0" using floor_log_int_le [OF assms(1,2)] by (simp add: e_def)
  have p: "pow2 e = 1 / 2 ^ nat (- e)"
    using e0 by (cases "e = 0") (simp_all add: pow2_def)
  have q: "(of_int n :: rat) / pow2 e = of_int (n * 2 ^ nat (- e))"
    by (simp add: p)
  have r: "round_even (of_int n / pow2 e) = n * 2 ^ nat (- e)"
    unfolding q by (rule round_even_int)
  show ?thesis unfolding r by (simp add: p)
qed

lemma int_below_overflow: "n < 2 ^ 53 \<Longrightarrow> (of_int n :: rat) < 2 ^ 1024"
proof -
  assume "n < 2 ^ 53"
  then have "n < 2 ^ 1024" by (rule less_trans) simp
  then have "(of_int n :: rat) < of_int (2 ^ 1024)" by (simp only: of_int_less_iff)
  then show ?thesis by simp
qed

lemma round_double_int:
  assumes "\<bar>n\<bar> < 2 ^ 53"
  shows "round_double (of_int n) = Fin (of_int n)"
proof -
  consider "n = 0" | "0 < n" | "n < 0" by linarith
  then show ?thesis
  proof cases
    case 1
    then show ?thesis by (simp add: round_double_def)
  next
    case 2
    with assms have b: "n < 2 ^ 53" by simp
    have a: "\<bar>of_int n :: rat\<bar> = of_int n" using 2 by simp
    show ?thesis
      using 2 int_below_overflow [OF b] significand_int [OF 2 b]
      by (simp add: round_double_def a Let_def)
  next
    case 3
    with assms have p: "0 < - n" and b: "- n < 2 ^ 53" by simp_all
    have a: "\<bar>of_int n :: rat\<bar> = of_int (- n)" using 3 by simp
    show ?thesis
      using 3 int_below_overflow [OF b] significand_int [OF p b]
      by (simp add: round_double_def a Let_def del: of_int_minus)
  qed
qed

lemma round_double_numeral:
  "(numeral w :: int) < 2 ^ 53 \<Longrightarrow> round_double (numeral w) = Fin (numeral w)"
  using round_double_int [of "numeral w"] by simp

lemma round_double_neg_numeral:
  "(numeral w :: int) < 2 ^ 53 \<Longrightarrow> round_double (- numeral w) = Fin (- numeral w)"
  using round_double_int [of "- numeral w"] by simp

lemma round_double_0: "round_double 0 = Fin 0"
  by (simp add: round_double_def)

lemma round_double_1: "round_double 1 = Fin 1"
  using round_double_int [of 1] by simp

lemmas num_eval = round_double_numeral round_double_neg_numeral round_double_0 round_double_1


lemmas text_eval = is_space_def is_digit_def digit_val_def digits_val_def digit_char_def
  char_of_def show_nat_def show_pos.simps

lemmas parse_eval = trim_def parseFloat_def parse_unsigned_def parse_exponent_def
  decimal_value_def pow10_def


section \<open>The digits of an integer\<close>

lemma ndigits_pos: "0 < n \<Longrightarrow> 1 < b \<Longrightarrow> ndigits b n = 1 + ndigits b (n div b)"
  by (subst ndigits.simps) simp

lemma ndigits_nonpos: "n \<le> 0 \<Longrightarrow> ndigits b n = 0"
  by (subst ndigits.simps) simp

lemma ndigits_ge0: "0 \<le> ndigits b n"
proof (induction b n rule: ndigits.induct)
  case (1 b n)
  show ?case
  proof (cases "n \<le> 0 \<or> b \<le> 1")
    case True
    then show ?thesis by (subst ndigits.simps) simp
  next
    case False
    with "1.IH" have "0 \<le> ndigits b (n div b)" by simp
    with False show ?thesis by (subst ndigits.simps) simp
  qed
qed

lemma div_bounds:
  fixes n b :: int
  assumes "1 < b"
  shows "b * (n div b) \<le> n" and "n < b * (n div b + 1)"
proof -
  have e: "b * (n div b) + n mod b = n" by (rule mult_div_mod_eq)
  have m: "0 \<le> n mod b" "n mod b < b" using assms by simp_all
  show "b * (n div b) \<le> n" using e m(1) by linarith
  have "b * (n div b + 1) = b * (n div b) + b" by (simp add: distrib_left)
  then show "n < b * (n div b + 1)" using e m(2) by linarith
qed

lemma ndigits_bounds:
  "1 < b \<Longrightarrow> 0 < n \<Longrightarrow> b ^ nat (ndigits b n - 1) \<le> n \<and> n < b ^ nat (ndigits b n)"
proof (induction b n rule: ndigits.induct)
  case (1 b n)
  note b = \<open>1 < b\<close> and n = \<open>0 < n\<close>
  show ?case
  proof (cases "n div b = 0")
    case True
    then have "n < b" using n b by presburger
    moreover have "ndigits b n = 1"
      using n b True by (simp add: ndigits_pos ndigits_nonpos)
    ultimately show ?thesis using n by simp
  next
    case False
    have "0 \<le> n div b" using n b by (simp add: pos_imp_zdiv_nonneg_iff)
    with False have p: "0 < n div b" by linarith
    have c: "\<not> (n \<le> 0 \<or> b \<le> 1)" using n b by simp
    from "1.IH" [OF c b p]
    have ih: "b ^ nat (ndigits b (n div b) - 1) \<le> n div b"
      "n div b < b ^ nat (ndigits b (n div b))"
      by simp_all
    have d: "ndigits b n = 1 + ndigits b (n div b)" using n b by (rule ndigits_pos)
    have g: "1 \<le> ndigits b (n div b)"
      using ndigits_pos [OF p b] ndigits_ge0 [of b "n div b div b"] by simp
    have e1: "nat (ndigits b n - 1) = Suc (nat (ndigits b (n div b) - 1))" using d g by simp
    have e2: "nat (ndigits b n) = Suc (nat (ndigits b (n div b)))" using d g by simp
    have "b * b ^ nat (ndigits b (n div b) - 1) \<le> b * (n div b)"
      using ih(1) b by (simp add: mult_left_mono)
    with div_bounds(1) [OF b, of n] have l: "b ^ nat (ndigits b n - 1) \<le> n"
      unfolding e1 by simp
    have "n div b + 1 \<le> b ^ nat (ndigits b (n div b))" using ih(2) by simp
    then have "b * (n div b + 1) \<le> b * b ^ nat (ndigits b (n div b))"
      using b by (simp only: mult_le_cancel_left) simp
    with div_bounds(2) [OF b, of n] have u: "n < b ^ nat (ndigits b n)"
      unfolding e2 by simp
    from l u show ?thesis ..
  qed
qed


lemma ndigits_1: "1 < b \<Longrightarrow> ndigits b 1 = 1"
  by (simp add: ndigits_pos ndigits_nonpos)

lemma floor_log_int:
  assumes "1 < b" "0 < n"
  shows "floor_log b (of_int n) = ndigits b n - 1"
proof -
  have g: "1 \<le> ndigits b n"
    using ndigits_pos [OF assms(2,1)] ndigits_ge0 [of b "n div b"] by simp
  from ndigits_bounds [OF assms] have "b ^ nat (ndigits b n - 1) \<le> n" by simp
  then have "(of_int (b ^ nat (ndigits b n - 1)) :: rat) \<le> of_int n"
    by (simp only: of_int_le_iff)
  then have "bpow b (ndigits b n - 1) \<le> of_int n"
    using g by (simp add: bpow_def)
  then show ?thesis
    by (simp add: floor_log_def ndigits_1 [OF assms(1)] Let_def)
qed

lemma round_even_ge_floor: "\<lfloor>q\<rfloor> \<le> round_even q"
  by (simp add: round_even_def Let_def)

text \<open>An integer from \<open>2 ^ 53\<close> on does not round below \<open>2 ^ 53\<close>.\<close>

lemma round_double_large:
  assumes "2 ^ 53 \<le> x" "round_double (of_int x) = Fin w"
  shows "2 ^ 53 \<le> w"
proof -
  have x: "0 < x" using assms(1) by (rule less_le_trans [rotated]) simp
  define d where "d = ndigits 2 x"
  from ndigits_bounds [of 2 x] x have b: "2 ^ nat (d - 1) \<le> x" "x < 2 ^ nat d"
    by (simp_all add: d_def)
  have "(2::int) ^ 53 < 2 ^ nat d" using assms(1) b(2) by linarith
  then have "53 < nat d" by (simp only: power_strict_increasing_iff [of 2]) 
  then have d: "54 \<le> d" by simp
  define e where "e = d - 53"
  have e: "1 \<le> e" using d by (simp add: e_def)
  have fl: "floor_log 2 (of_int x) = d - 1" using x by (simp add: floor_log_int d_def)
  have ee: "max (- 1074) (floor_log 2 (of_int x) - 52) = e"
    using e by (simp add: fl e_def)
  have p: "pow2 e = 2 ^ nat e" using e by (simp add: pow2_def)
  have "nat (d - 1) = 52 + nat e" using d by (simp add: e_def)
  then have "(2::int) ^ 52 * 2 ^ nat e \<le> x" using b(1) by (simp add: power_add)
  then have "(of_int ((2::int) ^ 52 * 2 ^ nat e) :: rat) \<le> of_int x" by (simp only: of_int_le_iff)
  then have "(2::rat) ^ 52 * 2 ^ nat e \<le> of_int x" by simp
  then have "(2::rat) ^ 52 \<le> of_int x / 2 ^ nat e" by (simp add: pos_le_divide_eq)
  then have "(of_int ((2::int) ^ 52) :: rat) \<le> of_int x / 2 ^ nat e" by simp
  then have "(2::int) ^ 52 \<le> \<lfloor>(of_int x :: rat) / 2 ^ nat e\<rfloor>" by (simp only: le_floor_iff)
  with round_even_ge_floor [of "of_int x / 2 ^ nat e"]
  have m: "(2::int) ^ 52 \<le> round_even (of_int x / 2 ^ nat e)" by linarith
  define m where "m = round_even (of_int x / 2 ^ nat e)"
  have m0: "0 \<le> m"
  proof -
    have "(0::int) \<le> 2 ^ 52" by simp
    then show ?thesis using m unfolding m_def by (rule order_trans)
  qed
  have "(2::int) ^ 52 * 2 ^ 1 \<le> m * 2 ^ nat e"
  proof (rule mult_mono)
    show "(2::int) ^ 52 \<le> m" using m by (simp add: m_def)
    show "(2::int) ^ 1 \<le> 2 ^ nat e" using e by (intro power_increasing) simp_all
    show "0 \<le> m" by (rule m0)
  qed simp
  then have "(2::int) ^ 53 \<le> m * 2 ^ nat e" by simp
  then have "(of_int ((2::int) ^ 53) :: rat) \<le> of_int (m * 2 ^ nat e)" by (simp only: of_int_le_iff)
  then have v: "(2::rat) ^ 53 \<le> of_int m * 2 ^ nat e" by simp
  have "round_double (of_int x) =
      (if (2::rat) ^ 1024 \<le> of_int m * 2 ^ nat e then PInf else Fin (of_int m * 2 ^ nat e))"
    using x by (simp add: round_double_def ee p Let_def m_def)
  with assms(2) have "w = of_int m * 2 ^ nat e" by (simp split: if_splits)
  with v show ?thesis by simp
qed

lemma round_double_int_eq:
  assumes "0 < x" "0 < n" "n < 2 ^ 53"
  shows "(round_double (of_int x) = Fin (of_int n)) = (x = n)"
proof (cases "x < 2 ^ 53")
  case True
  with assms(1) have "round_double (of_int x) = Fin (of_int x)" by (intro round_double_int) simp
  then show ?thesis by simp
next
  case False
  then have x: "2 ^ 53 \<le> x" by simp
  have "round_double (of_int x) \<noteq> Fin (of_int n)"
  proof
    assume "round_double (of_int x) = Fin (of_int n)"
    from round_double_large [OF x this] have "(of_int ((2::int) ^ 53) :: rat) \<le> of_int n" by simp
    then have "(2::int) ^ 53 \<le> n" by (simp only: of_int_le_iff)
    with assms(3) show False by simp
  qed
  moreover have "x \<noteq> n" using x assms(3) by simp
  ultimately show ?thesis by simp
qed


text \<open>
  The search on an integer \<open>0 < n < 2 ^ 53\<close> with \<open>n0\<close> decimal digits: with \<open>k\<close> digits it
  succeeds exactly when \<open>10 ^ (n0 - k)\<close> divides \<open>n\<close>, and then with the quotient.
\<close>

lemma try_digits_int:
  assumes n: "0 < n" "n < 2 ^ 53" and k: "1 \<le> k" "int k \<le> ndigits 10 n"
  shows "try_digits (of_int n) (ndigits 10 n) k =
           (if 10 ^ nat (ndigits 10 n - int k) dvd n
            then Some (n div 10 ^ nat (ndigits 10 n - int k), ndigits 10 n) else None)"
proof -
  define j where "j = nat (ndigits 10 n - int k)"
  define U :: int where "U = 10 ^ j"
  have U: "0 < U" by (simp add: U_def)
  have u: "pow10 (ndigits 10 n - int k) = of_int U"
    using k by (simp add: pow10_def U_def j_def)
  have "j \<le> nat (ndigits 10 n - 1)" using k by (simp add: j_def)
  then have "U \<le> 10 ^ nat (ndigits 10 n - 1)"
    unfolding U_def by (intro power_increasing) simp_all
  also have "\<dots> \<le> n" using ndigits_bounds [of 10 n] n(1) by simp
  finally have Un: "U \<le> n" .
  define lo where "lo = n div U"
  have lo: "0 < lo" unfolding lo_def using U Un by (simp add: pos_imp_zdiv_pos_iff)
  have fl: "\<lfloor>(of_int n :: rat) / of_int U\<rfloor> = lo"
    by (simp add: lo_def floor_divide_of_int_eq)
  have b: "lo * U \<le> n" "n < (lo + 1) * U"
  proof -
    have e: "U * (n div U) + n mod U = n" by (rule mult_div_mod_eq)
    have m: "0 \<le> n mod U" "n mod U < U" using U by simp_all
    have "U * (n div U) \<le> n" using e m(1) by linarith
    then show "lo * U \<le> n" by (simp add: lo_def mult.commute)
    have "(lo + 1) * U = U * (n div U) + U" by (simp add: lo_def algebra_simps)
    then show "n < (lo + 1) * U" using e m(2) by linarith
  qed
  have ok_lo: "(round_double (of_int lo * of_int U) = Fin (of_int n)) = (lo * U = n)"
    using round_double_int_eq [of "lo * U" n] lo U n by simp
  have ok_hi: "round_double ((of_int lo + 1) * of_int U) \<noteq> Fin (of_int n)"
    using round_double_int_eq [of "(lo + 1) * U" n] lo U n b(2) by simp
  have dv: "(lo * U = n) = (U dvd n)"
  proof
    assume "lo * U = n"
    then show "U dvd n" by (metis dvd_triv_right)
  next
    assume "U dvd n"
    then show "lo * U = n" by (simp add: lo_def)
  qed
  show ?thesis
    by (simp add: try_digits_def u fl Let_def ok_lo ok_hi dv j_def [symmetric]
          U_def [symmetric] lo_def [symmetric])
qed

lemma digits_at_most_16:
  assumes "0 < n" "n < 2 ^ 53"
  shows "ndigits 10 n \<le> 16"
proof (rule ccontr)
  assume "\<not> ndigits 10 n \<le> 16"
  then have "16 \<le> nat (ndigits 10 n - 1)" by simp
  then have "(10::int) ^ 16 \<le> 10 ^ nat (ndigits 10 n - 1)"
    by (intro power_increasing) simp_all
  also have "\<dots> \<le> n" using ndigits_bounds [of 10 n] assms(1) by simp
  finally show False using assms(2) by simp
qed

lemma shortest_digits_int:
  assumes n: "0 < n" "n < 2 ^ 53"
  shows "1 \<le> k \<Longrightarrow> int k \<le> ndigits 10 n \<Longrightarrow>
         \<exists>s j. shortest_digits (of_int n) (ndigits 10 n) k = (s, ndigits 10 n) \<and>
               0 < s \<and> n = s * 10 ^ j"
proof (induction "nat (ndigits 10 n - int k)" arbitrary: k)
  case 0
  then have "10 ^ nat (ndigits 10 n - int k) dvd n" by simp
  with try_digits_int [OF n "0.prems"]
  have "shortest_digits (of_int n) (ndigits 10 n) k = (n div 10 ^ 0, ndigits 10 n)"
    using "0.hyps" by (subst shortest_digits.simps) simp
  then show ?case using n(1) by (intro exI [of _ n] exI [of _ 0]) simp
next
  case (Suc m)
  define U :: int where "U = 10 ^ nat (ndigits 10 n - int k)"
  show ?case
  proof (cases "U dvd n")
    case True
    with try_digits_int [OF n Suc.prems]
    have "shortest_digits (of_int n) (ndigits 10 n) k = (n div U, ndigits 10 n)"
      by (subst shortest_digits.simps) (simp add: U_def)
    moreover have "n = n div U * U" using True by simp
    moreover have "0 < n div U"
    proof -
      have "0 < U" by (simp add: U_def)
      moreover have "U \<le> n" using True n(1) by (rule zdvd_imp_le)
      ultimately show ?thesis by (simp add: pos_imp_zdiv_pos_iff)
    qed
    ultimately show ?thesis unfolding U_def by blast
  next
    case False
    from Suc.hyps(2) Suc.prems have k: "int k < ndigits 10 n" by simp
    with digits_at_most_16 [OF n] have k17: "\<not> 17 \<le> k" by simp
    have m: "m = nat (ndigits 10 n - int (Suc k))" using Suc.hyps(2) by simp
    have "shortest_digits (of_int n) (ndigits 10 n) k
        = shortest_digits (of_int n) (ndigits 10 n) (Suc k)"
      using try_digits_int [OF n Suc.prems] False k17
      by (subst shortest_digits.simps) (simp add: U_def)
    moreover from Suc.hyps(1) [OF m] k
    have "\<exists>s j. shortest_digits (of_int n) (ndigits 10 n) (Suc k) = (s, ndigits 10 n) \<and>
               0 < s \<and> n = s * 10 ^ j" by simp
    ultimately show ?thesis by simp
  qed
qed

lemma show_pos_times_10: "0 < s \<Longrightarrow> show_pos (s * 10) = show_pos s @ ''0''"
  by (subst show_pos.simps) (simp add: digit_char_def char_of_def)

lemma show_pos_shift: "0 < s \<Longrightarrow> show_pos (s * 10 ^ j) = show_pos s @ replicate j (CHR ''0'')"
proof (induction j)
  case 0
  then show ?case by simp
next
  case (Suc j)
  then have p: "0 < s * 10 ^ j" by simp
  have eq: "s * 10 ^ Suc j = (s * 10 ^ j) * 10" by simp
  show ?case
    unfolding eq show_pos_times_10 [OF p] Suc.IH [OF Suc.prems]
    by (simp add: replicate_append_same)
qed

lemma length_show_pos: "0 < s \<Longrightarrow> int (length (show_pos s)) = ndigits 10 s"
proof (induction s rule: show_pos.induct)
  case (1 s)
  show ?case
  proof (cases "s < 10")
    case True
    then have "s div 10 = 0" using "1.prems" by simp
    then have "ndigits 10 s = 1" using "1.prems" by (simp add: ndigits_pos ndigits_nonpos)
    then show ?thesis using True by (subst show_pos.simps) simp
  next
    case False
    then have p: "0 < s div 10" by simp
    from "1.IH" [OF False p] have "int (length (show_pos (s div 10))) = ndigits 10 (s div 10)" .
    then show ?thesis
      using False "1.prems" by (subst show_pos.simps) (simp add: ndigits_pos)
  qed
qed

lemma ndigits_shift: "0 < s \<Longrightarrow> ndigits 10 (s * 10 ^ j) = ndigits 10 s + int j"
proof (induction j)
  case 0
  then show ?case by simp
next
  case (Suc j)
  then have p: "0 < s * 10 ^ Suc j" by simp
  have "s * 10 ^ Suc j div 10 = s * 10 ^ j" by simp
  with ndigits_pos [OF p, of 10] Suc show ?case by simp
qed

text \<open>The search prints an integer below \<open>2 ^ 53\<close> as its decimal numeral.\<close>

lemma pos_to_string_int:
  assumes "0 < n" "n < 2 ^ 53"
  shows "pos_to_string (of_int n) = show_pos n"
proof -
  have g: "1 \<le> ndigits 10 n"
    using ndigits_pos [OF assms(1), of 10] ndigits_ge0 [of 10 "n div 10"] by simp
  have f: "floor_log 10 (of_int n) + 1 = ndigits 10 n"
    using assms(1) by (simp add: floor_log_int)
  from shortest_digits_int [OF assms, of 1] g obtain s j where
    sd: "shortest_digits (of_int n) (ndigits 10 n) 1 = (s, ndigits 10 n)"
    and s: "0 < s" and ns: "n = s * 10 ^ j" by auto
  have nd: "ndigits 10 n = int (length (show_pos s)) + int j"
    using ndigits_shift [OF s, of j] length_show_pos [OF s] by (simp add: ns)
  have "layout (show_pos s) (ndigits 10 n) = show_pos s @ replicate j (CHR ''0'')"
    using digits_at_most_16 [OF assms] nd by (simp add: layout_def Let_def)
  also have "\<dots> = show_pos n" using show_pos_shift [OF s, of j] by (simp add: ns)
  finally show ?thesis unfolding pos_to_string_def f sd by simp
qed

lemma pos_to_string_numeral:
  "(numeral w :: int) < 2 ^ 53 \<Longrightarrow> pos_to_string (numeral w) = show_pos (numeral w)"
  using pos_to_string_int [of "numeral w"] by simp

lemma pos_to_string_1: "pos_to_string 1 = show_pos 1"
  using pos_to_string_int [of 1] by simp


section \<open>Decimal numerals\<close>

lemma digit_char_digit: "0 \<le> d \<Longrightarrow> d < 10 \<Longrightarrow> is_digit (digit_char d)"
  by (simp add: is_digit_def digit_char_def)

lemma digit_val_digit_char: "0 \<le> d \<Longrightarrow> d < 10 \<Longrightarrow> digit_val (digit_char d) = d"
  by (simp add: digit_val_def digit_char_def)

lemma show_pos_digits: "0 \<le> n \<Longrightarrow> show_pos n \<noteq> [] \<and> list_all is_digit (show_pos n)"
proof (induction n rule: show_pos.induct)
  case (1 n)
  show ?case
  proof (cases "n < 10")
    case True
    with "1.prems" show ?thesis
      by (subst (1 2) show_pos.simps) (simp add: digit_char_digit)
  next
    case False
    then have "0 \<le> n div 10" by simp
    with False "1.IH" have "list_all is_digit (show_pos (n div 10))" by simp
    moreover have "is_digit (digit_char (n mod 10))" by (simp add: digit_char_digit)
    ultimately show ?thesis using False
      by (subst (1 2) show_pos.simps) simp
  qed
qed

lemma digits_val_snoc: "digits_val (ds @ [c]) = 10 * digits_val ds + digit_val c"
  by (simp add: digits_val_def)

lemma digits_val_show_pos: "0 \<le> n \<Longrightarrow> digits_val (show_pos n) = n"
proof (induction n rule: show_pos.induct)
  case (1 n)
  show ?case
  proof (cases "n < 10")
    case True
    with "1.prems" show ?thesis
      by (subst show_pos.simps) (simp add: digits_val_def digit_val_digit_char)
  next
    case False
    then have "0 \<le> n div 10" by simp
    with False "1.IH" have "digits_val (show_pos (n div 10)) = n div 10" by simp
    then show ?thesis using False
      by (subst show_pos.simps) (simp add: digits_val_snoc digit_val_digit_char)
  qed
qed

lemma show_nat_inj: "show_nat a = show_nat b \<Longrightarrow> a = b"
proof -
  assume "show_nat a = show_nat b"
  then have "digits_val (show_pos (int a)) = digits_val (show_pos (int b))"
    by (simp add: show_nat_def)
  then show ?thesis by (simp add: digits_val_show_pos)
qed

lemma show_int_numeral: "is_int_numeral (show_int n)"
proof (cases "n < 0")
  case True
  then have "0 \<le> - n" by simp
  from show_pos_digits [OF this] show ?thesis using True
    by (simp add: show_int_def is_int_numeral_def)
next
  case False
  then have n: "0 \<le> n" by simp
  obtain c r where cr: "show_pos n = c # r"
    using show_pos_digits [OF n] by (cases "show_pos n") auto
  have d: "list_all is_digit (c # r)" using show_pos_digits [OF n] cr by simp
  then have "c \<noteq> CHR ''-''" by (auto simp: is_digit_def)
  with d show ?thesis using False by (simp add: show_int_def is_int_numeral_def cr)
qed

text \<open>A finite integer below \<open>2 ^ 53\<close> in magnitude is printed as its integer numeral.\<close>

lemma numToString_int: "\<bar>n\<bar> < 2 ^ 53 \<Longrightarrow> numToString (Fin (of_int n)) = show_int n"
proof -
  assume b: "\<bar>n\<bar> < 2 ^ 53"
  consider "n = 0" | "0 < n" | "n < 0" by linarith
  then show ?thesis
  proof cases
    case 1
    then show ?thesis by (simp add: show_int_def show_pos.simps digit_char_def char_of_def)
  next
    case 2
    with b have "n < 2 ^ 53" by simp
    from pos_to_string_int [OF 2 this] show ?thesis using 2 by (simp add: show_int_def)
  next
    case 3
    with b have p: "0 < - n" "- n < 2 ^ 53" by simp_all
    from pos_to_string_int [OF p] show ?thesis using 3 by (simp add: show_int_def)
  qed
qed


section \<open>The form of a binary64 value\<close>

lemma pow2_powi: "pow2 e = 2 powi e"
  by (simp add: pow2_def power_int_def inverse_eq_divide power_one_over)

lemma pow10_powi: "pow10 e = 10 powi e"
  by (simp add: pow10_def power_int_def inverse_eq_divide power_one_over)

lemma bpow_powi: "bpow b e = of_int b powi e"
  by (simp add: bpow_def power_int_def inverse_eq_divide power_one_over)

lemma ndigits_ge1: "0 < n \<Longrightarrow> 1 < b \<Longrightarrow> 1 \<le> ndigits b n"
  using ndigits_pos [of n b] ndigits_ge0 [of b "n div b"] by simp

text \<open>A positive rational lies below the power of two after its \<open>floor_log\<close>.\<close>

lemma floor_log_upper:
  assumes "0 < q"
  shows "q < 2 powi (floor_log 2 q + 1)"
proof -
  obtain n d where nd: "quotient_of q = (n, d)" by (cases "quotient_of q")
  have d: "0 < d" using nd by (rule quotient_of_denom_pos)
  have q: "q = of_int n / of_int d" using nd by (rule quotient_of_div)
  have n: "0 < n" using assms d by (simp add: q zero_less_divide_iff)
  define dn where "dn = ndigits 2 n"
  define dd where "dd = ndigits 2 d"
  have g: "1 \<le> dn" "1 \<le> dd" using n d by (simp_all add: dn_def dd_def ndigits_ge1)
  have "n < 2 ^ nat dn" using ndigits_bounds [of 2 n] n by (simp add: dn_def)
  then have "(of_int n :: rat) < of_int (2 ^ nat dn)" by (simp only: of_int_less_iff)
  then have un: "(of_int n :: rat) < 2 powi dn" using g by (simp add: power_int_def)
  have "2 ^ nat (dd - 1) \<le> d" using ndigits_bounds [of 2 d] d by (simp add: dd_def)
  then have "(of_int (2 ^ nat (dd - 1)) :: rat) \<le> of_int d" by (simp only: of_int_le_iff)
  then have ld: "(2::rat) powi (dd - 1) \<le> of_int d" using g by (simp add: power_int_def)
  have p: "(0::rat) < 2 powi (dd - 1)" by simp
  have "q < 2 powi dn / 2 powi (dd - 1)"
    unfolding q using n un p ld by (intro frac_less) simp_all
  also have "\<dots> = 2 powi (dn - (dd - 1))" by (simp add: power_int_diff)
  finally have up: "q < 2 powi (dn - dd + 1)" by (simp add: algebra_simps)
  show ?thesis
  proof (cases "bpow 2 (dn - dd) \<le> q")
    case True
    then have "floor_log 2 q = dn - dd"
      by (simp add: floor_log_def nd Let_def dn_def dd_def)
    with up show ?thesis by simp
  next
    case False
    then have "floor_log 2 q = dn - dd - 1"
      by (simp add: floor_log_def nd Let_def dn_def dd_def)
    with False show ?thesis by (simp add: bpow_powi)
  qed
qed

lemma round_even_le: "round_even x \<le> \<lfloor>x\<rfloor> + 1"
  by (simp add: round_even_def Let_def)

text \<open>
  A finite result of the rounding is a significand of at most 53 bits times a power of two.
\<close>

lemma round_double_pos_form:
  assumes "0 < q" "round_double q = Fin w"
  shows "\<exists>m e. w = of_int m * pow2 e \<and> 0 \<le> m \<and> m \<le> 2 ^ 53 \<and> w < 2 ^ 1024"
proof -
  define e where "e = max (- 1074) (floor_log 2 q - 52)"
  define m where "m = round_even (q / pow2 e)"
  have a: "\<bar>q\<bar> = q" using assms(1) by simp
  have "round_double q = (if 2 ^ 1024 \<le> of_int m * pow2 e then PInf else Fin (of_int m * pow2 e))"
    using assms(1) by (simp add: round_double_def a Let_def e_def m_def)
  with assms(2) have w: "w = of_int m * pow2 e" "w < 2 ^ 1024"
    by (auto split: if_splits)
  have pe: "2 powi (floor_log 2 q - 52) \<le> pow2 e"
    unfolding pow2_powi by (rule power_int_increasing) (simp_all add: e_def)
  have "q < 2 powi (floor_log 2 q + 1)" using assms(1) by (rule floor_log_upper)
  also have "floor_log 2 q + 1 = 53 + (floor_log 2 q - 52)" by simp
  also have "(2::rat) powi (53 + (floor_log 2 q - 52)) = 2 powi 53 * 2 powi (floor_log 2 q - 52)"
    by (rule power_int_add) simp
  also have "\<dots> \<le> 2 powi 53 * pow2 e" using pe by simp
  finally have "q / pow2 e < 2 powi 53"
    using pow2_pos [of e] by (simp add: pos_divide_less_eq)
  then have "q / pow2 e < of_int (2 ^ 53)" by (simp add: power_int_def)
  then have "\<lfloor>q / pow2 e\<rfloor> < 2 ^ 53" by (simp only: floor_less_iff)
  with round_even_le [of "q / pow2 e"] have "m \<le> 2 ^ 53" unfolding m_def by linarith
  moreover have "0 \<le> m"
    unfolding m_def using assms(1) pow2_pos [of e] by (intro round_even_nonneg) simp
  ultimately show ?thesis using w by blast
qed


lemma ndigits_mult_power:
  "1 < b \<Longrightarrow> 0 < s \<Longrightarrow> ndigits b (s * b ^ j) = ndigits b s + int j"
proof (induction j)
  case 0
  then show ?case by simp
next
  case (Suc j)
  then have p: "0 < s * b ^ Suc j" by simp
  have "s * b ^ Suc j div b = s * b ^ j" using Suc.prems by simp
  with ndigits_pos [OF p Suc.prems(1)] Suc show ?case by simp
qed

text \<open>A significand below \<open>2 ^ 53\<close> times a power of two is a binary64 value.\<close>

lemma round_double_scaled:
  assumes "0 < m" "m < 2 ^ 53" "(of_int m :: rat) * 2 ^ e < 2 ^ 1024"
  shows "round_double (of_int m * 2 ^ e) = Fin (of_int m * 2 ^ e)"
proof -
  define x where "x = m * 2 ^ e"
  have x: "0 < x" using assms(1) by (simp add: x_def)
  have ox: "(of_int m :: rat) * 2 ^ e = of_int x" by (simp add: x_def)
  define dm where "dm = ndigits 2 m"
  have dm: "1 \<le> dm" "dm \<le> 53"
    using assms(1,2) ndigits_le [of m 53] by (simp_all add: dm_def ndigits_ge1)
  have nx: "ndigits 2 x = dm + int e"
    unfolding x_def dm_def using assms(1) by (intro ndigits_mult_power) simp_all
  have "floor_log 2 (of_int x) = ndigits 2 x - 1"
    using x by (intro floor_log_int) simp_all
  then have fl: "floor_log 2 (of_int x) = dm + int e - 1" by (simp only: nx)
  define E where "E = dm + int e - 53"
  have mx: "max (- 1074) (floor_log 2 (of_int x) - 52) = E"
    using dm by (simp add: fl E_def)
  have "pow2 E = 2 powi (int e - (53 - dm))" by (simp add: pow2_powi E_def algebra_simps)
  also have "\<dots> = 2 powi int e / 2 powi (53 - dm)" by (simp add: power_int_diff)
  also have "\<dots> = 2 ^ e / 2 ^ nat (53 - dm)" using dm by (simp add: power_int_def)
  finally have pw: "pow2 E = 2 ^ e / 2 ^ nat (53 - dm)" .
  have dv: "(of_int x :: rat) / pow2 E = of_int (m * 2 ^ nat (53 - dm))"
    by (simp add: pw x_def)
  have re: "round_even (of_int x / pow2 E) = m * 2 ^ nat (53 - dm)"
    unfolding dv by (rule round_even_int)
  have v: "(of_int (m * 2 ^ nat (53 - dm)) :: rat) * pow2 E = of_int x"
    by (simp add: pw x_def)
  have a: "\<bar>of_int x :: rat\<bar> = of_int x" using x by simp
  have lt: "\<not> (2::rat) ^ 1024 \<le> of_int x" using assms(3) by (simp add: ox)
  have rd: "round_double (of_int x) =
      (if (2::rat) ^ 1024 \<le> of_int (round_even (of_int x / pow2 E)) * pow2 E then PInf
       else Fin (of_int (round_even (of_int x / pow2 E)) * pow2 E))"
    using x by (simp add: round_double_def a mx Let_def)
  show ?thesis
    unfolding ox rd re v using lt by simp
qed

lemma round_double_scaled_le:
  assumes "0 < m" "m \<le> 2 ^ 53" "(of_int m :: rat) * 2 ^ e < 2 ^ 1024"
  shows "round_double (of_int m * 2 ^ e) = Fin (of_int m * 2 ^ e)"
proof (cases "m < 2 ^ 53")
  case True
  with assms show ?thesis by (intro round_double_scaled)
next
  case False
  with assms(2) have m: "m = 2 ^ 53" by simp
  have eq: "(of_int m :: rat) * 2 ^ e = of_int (2 ^ 52) * 2 ^ Suc e" by (simp add: m)
  have "round_double (of_int (2 ^ 52) * 2 ^ Suc e) = Fin (of_int (2 ^ 52) * 2 ^ Suc e)"
    using assms(3) unfolding eq by (intro round_double_scaled) simp_all
  then show ?thesis by (simp only: eq)
qed

text \<open>A finite result above \<open>2 ^ 52\<close> is an integer, and a binary64 value.\<close>

lemma round_double_big:
  assumes "0 < q" "round_double q = Fin w" "2 ^ 52 < w"
  shows "\<exists>x. 0 < x \<and> w = of_int x \<and> round_double (of_int x) = Fin (of_int x)"
proof -
  from round_double_pos_form [OF assms(1,2)] obtain m e where
    w: "w = of_int m * pow2 e" and m: "0 \<le> m" "m \<le> 2 ^ 53" and b: "w < 2 ^ 1024" by blast
  have e: "0 \<le> e"
  proof (rule ccontr)
    assume "\<not> 0 \<le> e"
    then have "e \<le> - 1" by simp
    then have "(2::rat) powi e \<le> 2 powi (- 1)" by (intro power_int_increasing) simp_all
    then have pe: "pow2 e \<le> 1 / 2" by (simp add: pow2_powi power_int_def)
    have "(of_int m :: rat) \<le> of_int (2 ^ 53)" using m(2) by (simp only: of_int_le_iff)
    then have om: "(of_int m :: rat) \<le> 2 ^ 53" by simp
    have "(of_int m :: rat) * pow2 e \<le> 2 ^ 53 * (1 / 2)"
      using om pe m(1) pow2_pos [of e] by (intro mult_mono) simp_all
    with assms(3) show False by (simp add: w)
  qed
  then have pe: "pow2 e = 2 ^ nat e" by (simp add: pow2_def)
  have m0: "0 < m"
  proof (rule ccontr)
    assume "\<not> 0 < m"
    with m(1) have "m = 0" by simp
    with assms(3) show False by (simp add: w)
  qed
  define x where "x = m * 2 ^ nat e"
  have wx: "w = of_int x" by (simp add: w pe x_def)
  have "round_double (of_int m * 2 ^ nat e) = Fin (of_int m * 2 ^ nat e)"
    using m0 m(2) b by (intro round_double_scaled_le) (simp_all add: w pe)
  then have "round_double (of_int x) = Fin (of_int x)" by (simp add: x_def)
  moreover have "0 < x" using m0 by (simp add: x_def)
  ultimately show ?thesis using wx by blast
qed

lemma round_double_minus: "round_double (- q) = js_neg (round_double q)"
  by (simp add: round_double_def Let_def)

lemma round_double_sign:
  assumes "round_double q = Fin w"
  shows "(0 < w \<longrightarrow> 0 < q) \<and> (w < 0 \<longrightarrow> q < 0)"
proof -
  define e where "e = max (- 1074) (floor_log 2 \<bar>q\<bar> - 52)"
  have "0 \<le> round_even (\<bar>q\<bar> / pow2 e)"
    using pow2_pos [of e] by (intro round_even_nonneg) simp
  then have v: "0 \<le> (of_int (round_even (\<bar>q\<bar> / pow2 e)) :: rat) * pow2 e"
    using pow2_pos [of e] by simp
  show ?thesis
    using assms v by (auto simp: round_double_def Let_def e_def split: if_splits)
qed

text \<open>The floor of a binary64 value is a binary64 value.\<close>

lemma floor_round_double:
  assumes "round_double q = Fin w"
  shows "round_double (of_int \<lfloor>w\<rfloor>) = Fin (of_int \<lfloor>w\<rfloor>)"
proof -
  consider "\<bar>\<lfloor>w\<rfloor>\<bar> < 2 ^ 53" | "2 ^ 53 \<le> \<lfloor>w\<rfloor>" | "\<lfloor>w\<rfloor> \<le> - (2 ^ 53)" by linarith
  then show ?thesis
  proof cases
    case 1
    then show ?thesis by (rule round_double_int)
  next
    case 2
    then have "(of_int (2 ^ 53) :: rat) \<le> w" by (simp only: le_floor_iff)
    then have big: "2 ^ 52 < w" by simp
    then have "0 < w" by (rule less_trans [rotated]) simp
    with round_double_sign [OF assms] have q: "0 < q" by simp
    from round_double_big [OF q assms big] obtain x where
      "w = of_int x" "round_double (of_int x) = Fin (of_int x)" by blast
    then show ?thesis by simp
  next
    case 3
    then have "\<lfloor>w\<rfloor> < - (2 ^ 53) + 1" by simp
    then have "w < of_int (- (2 ^ 53) + 1)" by (simp only: floor_less_iff)
    then have big: "2 ^ 52 < - w" by simp
    then have "0 < - w" by (rule less_trans [rotated]) simp
    with round_double_sign [OF assms] have q: "0 < - q" by simp
    have r: "round_double (- q) = Fin (- w)" by (simp add: round_double_minus assms)
    from round_double_big [OF q r big] obtain x where
      x: "- w = of_int x" "round_double (of_int x) = Fin (of_int x)" by blast
    then have w: "w = of_int (- x)" by simp
    have "round_double (of_int (- x)) = Fin (of_int (- x))"
      using round_double_minus [of "of_int x"] x(2) by simp
    then show ?thesis by (simp add: w del: of_int_minus)
  qed
qed

text \<open>An integer rounds to an integer that is a binary64 value, or to an infinity.\<close>

lemma round_double_of_int:
  assumes "round_double (of_int b) = Fin w"
  shows "\<exists>x. w = of_int x \<and> round_double (of_int x) = Fin (of_int x)"
proof -
  consider "\<bar>b\<bar> < 2 ^ 53" | "2 ^ 53 \<le> b" | "b \<le> - (2 ^ 53)" by linarith
  then show ?thesis
  proof cases
    case 1
    from round_double_int [OF 1] assms have "w = of_int b" by simp
    with round_double_int [OF 1] show ?thesis by blast
  next
    case 2
    from round_double_large [OF 2 assms] have big: "2 ^ 52 < w" by simp
    have q: "(0::rat) < of_int b" using 2 by simp
    from round_double_big [OF q assms big] show ?thesis by blast
  next
    case 3
    then have b: "2 ^ 53 \<le> - b" by simp
    have r: "round_double (of_int (- b)) = Fin (- w)"
      using round_double_minus [of "of_int b"] assms by simp
    from round_double_large [OF b r] have big: "2 ^ 52 < - w" by simp
    have q: "(0::rat) < of_int (- b)" using 3 by simp
    from round_double_big [OF q r big] obtain x where
      x: "- w = of_int x" "round_double (of_int x) = Fin (of_int x)" by blast
    then have w: "w = of_int (- x)" by simp
    have "round_double (of_int (- x)) = Fin (of_int (- x))"
      using round_double_minus [of "of_int x"] x(2) by simp
    with w show ?thesis by blast
  qed
qed


section \<open>The digits of a binary64 integer\<close>

text \<open>The first \<open>k\<close> digits of an integer \<open>x > 0\<close>.\<close>

lemma digits_prefix:
  assumes "0 < x" "1 \<le> k" "int k \<le> ndigits 10 x"
  shows "pow10 (ndigits 10 x - int k) = of_int (10 ^ nat (ndigits 10 x - int k))"
    and "\<lfloor>(of_int x :: rat) / of_int (10 ^ nat (ndigits 10 x - int k))\<rfloor>
           = x div 10 ^ nat (ndigits 10 x - int k)"
    and "0 < x div 10 ^ nat (ndigits 10 x - int k)"
    and "x div 10 ^ nat (ndigits 10 x - int k) < 10 ^ k"
    and "(10::int) ^ k * 10 ^ nat (ndigits 10 x - int k) = 10 ^ nat (ndigits 10 x)"
proof -
  define n0 where "n0 = ndigits 10 x"
  define U :: int where "U = 10 ^ nat (n0 - int k)"
  have U: "0 < U" by (simp add: U_def)
  show "pow10 (ndigits 10 x - int k) = of_int (10 ^ nat (ndigits 10 x - int k))"
    using assms(3) by (simp add: pow10_def)
  show "\<lfloor>(of_int x :: rat) / of_int (10 ^ nat (ndigits 10 x - int k))\<rfloor>
           = x div 10 ^ nat (ndigits 10 x - int k)"
    by (rule floor_divide_of_int_eq)
  have b: "10 ^ nat (n0 - 1) \<le> x" "x < 10 ^ nat n0"
    using ndigits_bounds [of 10 x] assms(1) by (simp_all add: n0_def)
  have "nat (n0 - int k) \<le> nat (n0 - 1)" using assms(2) by simp
  then have "U \<le> 10 ^ nat (n0 - 1)" unfolding U_def by (intro power_increasing) simp_all
  with b(1) have "U \<le> x" by simp
  with U have "0 < x div U" by (simp add: pos_imp_zdiv_pos_iff)
  then show "0 < x div 10 ^ nat (ndigits 10 x - int k)" by (simp add: U_def n0_def)
  have "nat n0 = k + nat (n0 - int k)" using assms(2,3) by (simp add: n0_def)
  then have kU: "(10::int) ^ k * U = 10 ^ nat n0" by (simp add: U_def power_add)
  then show "(10::int) ^ k * 10 ^ nat (ndigits 10 x - int k) = 10 ^ nat (ndigits 10 x)"
    by (simp add: U_def n0_def)
  have "x div U * U \<le> x" using div_bounds(1) [of U x] U
    by (cases "U = 1") (simp_all add: mult.commute)
  with b(2) have "x div U * U < 10 ^ k * U" by (simp add: kU)
  with U have "x div U < 10 ^ k" by (simp only: mult_less_cancel_right)
  then show "x div 10 ^ nat (ndigits 10 x - int k) < 10 ^ k" by (simp add: U_def n0_def)
qed

text \<open>What the search with \<open>k\<close> digits can give on an integer.\<close>

lemma try_digits_result:
  assumes x: "0 < x" and k: "1 \<le> k" "int k \<le> ndigits 10 x"
    and r: "try_digits (of_int x) (ndigits 10 x) k = Some (s, n)"
  shows "0 < s \<and> s < 10 ^ nat (ndigits 10 x) \<and>
         (n = ndigits 10 x \<or>
          n = ndigits 10 x + 1 \<and>
          round_double (of_int (10 ^ nat (ndigits 10 x))) = Fin (of_int x))"
proof -
  define n0 where "n0 = ndigits 10 x"
  define U :: int where "U = 10 ^ nat (n0 - int k)"
  define lo where "lo = x div U"
  note p = digits_prefix [OF x k, folded n0_def, folded U_def, folded lo_def]
  have kn: "k \<le> nat n0" using k by (simp add: n0_def)
  then have le: "(10::int) ^ k \<le> 10 ^ nat n0" by (intro power_increasing) simp_all
  define P where "P = (round_double (of_int (lo + 1) * of_int U) = Fin (of_int x) \<and>
     (\<not> round_double (of_int lo * of_int U) = Fin (of_int x) \<or>
      (of_int (lo + 1) :: rat) * of_int U - of_int x < of_int x - of_int lo * of_int U \<or>
      ((of_int (lo + 1) :: rat) * of_int U - of_int x = of_int x - of_int lo * of_int U \<and>
       even (lo + 1))))"
  have t: "try_digits (of_int x) n0 k =
      (if P then Some (if lo + 1 = 10 ^ k then (10 ^ (k - 1), n0 + 1) else (lo + 1, n0))
       else if round_double (of_int lo * of_int U) = Fin (of_int x) then Some (lo, n0)
       else None)"
    by (simp only: try_digits_def Let_def p(1) p(2) P_def)
  from r have r': "try_digits (of_int x) n0 k = Some (s, n)" by (simp add: n0_def)
  have "(P \<and> lo + 1 = 10 ^ k \<and> s = 10 ^ (k - 1) \<and> n = n0 + 1) \<or>
        (lo + 1 \<noteq> 10 ^ k \<and> s = lo + 1 \<and> n = n0) \<or> (s = lo \<and> n = n0)"
  proof (cases P)
    case True
    show ?thesis
    proof (cases "lo + 1 = 10 ^ k")
      case eq: True
      from r' have "Some ((10::int) ^ (k - 1), n0 + 1) = Some (s, n)"
        unfolding t using True eq by simp
      with True eq show ?thesis by simp
    next
      case ne: False
      from r' have "Some (lo + 1, n0) = Some (s, n)"
        unfolding t using True ne by simp
      with ne show ?thesis by simp
    qed
  next
    case False
    from r' have "(if round_double (of_int lo * of_int U) = Fin (of_int x) then Some (lo, n0)
       else None) = Some (s, n)"
      unfolding t using False by simp
    then have "Some (lo, n0) = Some (s, n)" by (simp split: if_splits)
    then show ?thesis by simp
  qed
  then consider (a) "P" "lo + 1 = 10 ^ k" "s = 10 ^ (k - 1)" "n = n0 + 1"
    | (b) "lo + 1 \<noteq> 10 ^ k" "s = lo + 1" "n = n0"
    | (c) "s = lo" "n = n0"
    by blast
  then have "0 < s \<and> s < 10 ^ nat n0 \<and>
         (n = n0 \<or> n = n0 + 1 \<and> round_double (of_int (10 ^ nat n0)) = Fin (of_int x))"
  proof cases
    case a
    have "k - 1 < nat n0" using k kn by simp
    then have "(10::int) ^ (k - 1) < 10 ^ nat n0" by (intro power_strict_increasing) simp_all
    moreover have "round_double (of_int (10 ^ nat n0)) = Fin (of_int x)"
    proof -
      from a(1) have "round_double (of_int (lo + 1) * of_int U) = Fin (of_int x)"
        by (simp add: P_def)
      moreover have "(of_int (lo + 1) :: rat) * of_int U = of_int (10 ^ k * U)"
        unfolding a(2) by simp
      ultimately show ?thesis by (simp only: p(5))
    qed
    ultimately show ?thesis using a by simp
  next
    case b
    from p(4) b(1) have "lo + 1 < 10 ^ k" by simp
    then have "lo + 1 < 10 ^ nat n0" using le by (rule less_le_trans)
    with p(3) b show ?thesis by simp
  next
    case c
    from p(4) le have "lo < 10 ^ nat n0" by (rule less_le_trans)
    with p(3) c show ?thesis by simp
  qed
  then show ?thesis by (simp add: n0_def)
qed

text \<open>With all its digits an integer that is a binary64 value is found.\<close>

lemma try_digits_full:
  assumes "0 < x" "round_double (of_int x) = Fin (of_int x)"
  shows "try_digits (of_int x) (ndigits 10 x) (nat (ndigits 10 x)) \<noteq> None"
proof -
  have "1 \<le> ndigits 10 x" using assms(1) by (simp add: ndigits_ge1)
  then have u: "pow10 (ndigits 10 x - int (nat (ndigits 10 x))) = 1" by (simp add: pow10_def)
  show ?thesis
    unfolding try_digits_def Let_def u by (simp add: assms(2))
qed

lemma shortest_digits_result:
  assumes x: "0 < x" and rp: "round_double (of_int x) = Fin (of_int x)"
  shows "1 \<le> k \<Longrightarrow> int k \<le> ndigits 10 x \<Longrightarrow>
         shortest_digits (of_int x) (ndigits 10 x) k = (s, n) \<Longrightarrow>
         0 < s \<and> s < 10 ^ nat (ndigits 10 x) \<and>
         (n = ndigits 10 x \<or>
          n = ndigits 10 x + 1 \<and>
          round_double (of_int (10 ^ nat (ndigits 10 x))) = Fin (of_int x))"
proof (induction "nat (ndigits 10 x) - k" arbitrary: k)
  case 0
  then have k: "k = nat (ndigits 10 x)" by simp
  from try_digits_full [OF x rp] obtain r where
    t: "try_digits (of_int x) (ndigits 10 x) k = Some r" unfolding k by blast
  with "0.prems"(3) have "try_digits (of_int x) (ndigits 10 x) k = Some (s, n)"
    by (subst (asm) shortest_digits.simps) simp
  from try_digits_result [OF x "0.prems"(1,2) this] show ?case .
next
  case (Suc m)
  show ?case
  proof (cases "try_digits (of_int x) (ndigits 10 x) k")
    case (Some r)
    with Suc.prems(3) have "try_digits (of_int x) (ndigits 10 x) k = Some (s, n)"
      by (subst (asm) shortest_digits.simps) simp
    from try_digits_result [OF x Suc.prems(1,2) this] show ?thesis .
  next
    case None
    show ?thesis
    proof (cases "17 \<le> k")
      case True
      with None Suc.prems(3)
      have sn: "s = \<lfloor>(of_int x :: rat) / pow10 (ndigits 10 x - int k)\<rfloor>" "n = ndigits 10 x"
        by (subst (asm) shortest_digits.simps, simp)+
      note p = digits_prefix [OF x Suc.prems(1,2)]
      have s: "s = x div 10 ^ nat (ndigits 10 x - int k)"
        unfolding sn(1) p(1) by (rule p(2))
      have "k \<le> nat (ndigits 10 x)" using Suc.prems(2) by simp
      then have "(10::int) ^ k \<le> 10 ^ nat (ndigits 10 x)" by (intro power_increasing) simp_all
      with p(4) have "x div 10 ^ nat (ndigits 10 x - int k) < 10 ^ nat (ndigits 10 x)"
        by (rule less_le_trans)
      with p(3) show ?thesis by (simp add: s sn(2))
    next
      case False
      with None Suc.prems(3)
      have "shortest_digits (of_int x) (ndigits 10 x) (Suc k) = (s, n)"
        by (subst (asm) shortest_digits.simps) simp
      moreover have "m = nat (ndigits 10 x) - Suc k" using Suc.hyps(2) by simp
      moreover have "int (Suc k) \<le> ndigits 10 x" using Suc.hyps(2) by simp
      ultimately show ?thesis by (intro Suc.hyps(1)) simp_all
    qed
  qed
qed

lemma ten_21: "round_double (of_int (10 ^ 21)) = Fin (of_int (10 ^ 21))"
proof -
  have "round_double (of_int 476837158203125 * 2 ^ 21) = Fin (of_int 476837158203125 * 2 ^ 21)"
    by (rule round_double_scaled) simp_all
  then show ?thesis by simp
qed

text \<open>
  An integer \<open>0 < x < 10 ^ 21\<close> that is a binary64 value is printed as digits: those the
  search finds, then zeros.
\<close>

lemma pos_to_string_digits:
  assumes "0 < x" "x < 10 ^ 21" "round_double (of_int x) = Fin (of_int x)"
  shows "\<exists>s j. 0 < s \<and> pos_to_string (of_int x) = show_pos s @ replicate j (CHR ''0'')"
proof -
  define n0 where "n0 = ndigits 10 x"
  have g: "1 \<le> n0" using assms(1) by (simp add: n0_def ndigits_ge1)
  have f: "floor_log 10 (of_int x) + 1 = n0"
    using assms(1) by (simp add: floor_log_int n0_def)
  have "10 ^ nat (n0 - 1) \<le> x" using ndigits_bounds [of 10 x] assms(1) by (simp add: n0_def)
  with assms(2) have "(10::int) ^ nat (n0 - 1) < 10 ^ 21" by simp
  then have "nat (n0 - 1) < 21" by (simp only: power_strict_increasing_iff [of 10])
  then have n21: "n0 \<le> 21" by simp
  obtain s n where sd: "shortest_digits (of_int x) n0 1 = (s, n)"
    by (cases "shortest_digits (of_int x) n0 1")
  from shortest_digits_result [OF assms(1,3), of 1 s n] g sd
  have s: "0 < s" "s < 10 ^ nat n0"
    and n: "n = n0 \<or> n = n0 + 1 \<and> round_double (of_int (10 ^ nat n0)) = Fin (of_int x)"
    by (simp_all add: n0_def)
  define k where "k = int (length (show_pos s))"
  have k: "k = ndigits 10 s" unfolding k_def using s(1) by (rule length_show_pos)
  have "10 ^ nat (k - 1) \<le> s" using ndigits_bounds [of 10 s] s(1) by (simp add: k)
  then have "(10::int) ^ nat (k - 1) < 10 ^ nat n0" using s(2) by (rule le_less_trans)
  then have "nat (k - 1) < nat n0" by (simp only: power_strict_increasing_iff [of 10])
  then have kn: "k \<le> n0" by simp
  have nn: "n0 \<le> n \<and> n \<le> 21"
  proof (cases "n = n0")
    case True
    with n21 show ?thesis by simp
  next
    case False
    with n have n1: "n = n0 + 1" and r: "round_double (of_int (10 ^ nat n0)) = Fin (of_int x)"
      by simp_all
    have "n0 \<noteq> 21"
    proof
      assume "n0 = 21"
      with r have "round_double (of_int (10 ^ 21)) = Fin (of_int x)" by simp
      with ten_21 have "(of_int ((10::int) ^ 21) :: rat) = of_int x" by simp
      then have "(10::int) ^ 21 = x" by (simp only: of_int_eq_iff)
      with assms(2) show False by simp
    qed
    with n21 n1 show ?thesis by simp
  qed
  have "layout (show_pos s) n = show_pos s @ replicate (nat (n - k)) (CHR ''0'')"
    using kn nn by (simp add: layout_def Let_def k_def [symmetric])
  then have "pos_to_string (of_int x) = show_pos s @ replicate (nat (n - k)) (CHR ''0'')"
    unfolding pos_to_string_def f sd by simp
  with s(1) show ?thesis by blast
qed

text \<open>
  A finite integer below \<open>10 ^ 21\<close> in magnitude that is a binary64 value is printed as an
  integer numeral.
\<close>

lemma numToString_integer:
  assumes "\<bar>n\<bar> < 10 ^ 21" "round_double (of_int n) = Fin (of_int n)"
  shows "is_int_numeral (numToString (Fin (of_int n)))"
proof -
  have digits: "\<And>s j. 0 < s \<Longrightarrow>
      show_pos s @ replicate j (CHR ''0'') \<noteq> [] \<and>
      list_all is_digit (show_pos s @ replicate j (CHR ''0''))"
  proof -
    fix s :: int and j assume "0 < s"
    then have "0 \<le> s" by simp
    from show_pos_digits [OF this] show
      "show_pos s @ replicate j (CHR ''0'') \<noteq> [] \<and>
       list_all is_digit (show_pos s @ replicate j (CHR ''0''))"
      by (auto simp: list_all_iff is_digit_def)
  qed
  consider "n = 0" | "0 < n" | "n < 0" by linarith
  then show ?thesis
  proof cases
    case 1
    then show ?thesis by (simp add: is_int_numeral_def is_digit_def)
  next
    case 2
    with assms(1) have b: "n < 10 ^ 21" by simp
    from pos_to_string_digits [OF 2 b assms(2)] obtain s j where
      s: "0 < s" and p: "pos_to_string (of_int n) = show_pos s @ replicate j (CHR ''0'')"
      by blast
    have ne: "pos_to_string (of_int n) \<noteq> []"
      and da: "list_all is_digit (pos_to_string (of_int n))"
      using digits [OF s, of j] unfolding p by simp_all
    from ne obtain c r where cr: "pos_to_string (of_int n) = c # r"
      by (cases "pos_to_string (of_int n)") simp_all
    have d: "list_all is_digit (c # r)" using da unfolding cr .
    then have "c \<noteq> CHR ''-''" by (auto simp: is_digit_def)
    with d show ?thesis using 2 by (simp add: is_int_numeral_def cr)
  next
    case 3
    with assms(1) have p: "0 < - n" and b: "- n < 10 ^ 21" by simp_all
    have rp: "round_double (of_int (- n)) = Fin (of_int (- n))"
      using round_double_minus [of "of_int n"] assms(2) by simp
    from pos_to_string_digits [OF p b rp] obtain s j where
      s: "0 < s" and q: "pos_to_string (of_int (- n)) = show_pos s @ replicate j (CHR ''0'')"
      by blast
    from digits [OF s, of j] q show ?thesis using 3 by (simp add: is_int_numeral_def)
  qed
qed

text \<open>From \<open>10 ^ 21\<close> on the text has an exponent, and is not an integer numeral.\<close>

lemma pos_to_string_exponent:
  assumes "10 ^ 21 \<le> x" "round_double (of_int x) = Fin (of_int x)"
  shows "CHR ''e'' \<in> set (pos_to_string (of_int x))"
proof -
  have x: "0 < x" using assms(1) by (rule less_le_trans [rotated]) simp
  define n0 where "n0 = ndigits 10 x"
  have g: "1 \<le> n0" using x by (simp add: n0_def ndigits_ge1)
  have f: "floor_log 10 (of_int x) + 1 = n0"
    using x by (simp add: floor_log_int n0_def)
  have "x < 10 ^ nat n0" using ndigits_bounds [of 10 x] x by (simp add: n0_def)
  with assms(1) have "(10::int) ^ 21 < 10 ^ nat n0" by (rule le_less_trans)
  then have "21 < nat n0" by (simp only: power_strict_increasing_iff [of 10])
  then have n22: "22 \<le> n0" by simp
  obtain s n where sd: "shortest_digits (of_int x) n0 1 = (s, n)"
    by (cases "shortest_digits (of_int x) n0 1")
  from shortest_digits_result [OF x assms(2), of 1 s n] g sd
  have "n = n0 \<or> n = n0 + 1" by (auto simp: n0_def)
  with n22 have n: "21 < n" by auto
  have "CHR ''e'' \<in> set (layout (show_pos s) n)"
    using n by (simp add: layout_def Let_def)
  then show ?thesis unfolding pos_to_string_def f sd by simp
qed

lemma int_numeral_no_exponent: "is_int_numeral s \<Longrightarrow> CHR ''e'' \<notin> set s"
  by (cases s) (auto simp: is_int_numeral_def list_all_iff is_digit_def split: if_splits)

lemma numToString_integer_iff:
  assumes "round_double (of_int n) = Fin (of_int n)"
  shows "is_int_numeral (numToString (Fin (of_int n))) = (\<bar>n\<bar> < 10 ^ 21)"
proof (cases "\<bar>n\<bar> < 10 ^ 21")
  case True
  from numToString_integer [OF True assms] True show ?thesis by simp
next
  case False
  have "CHR ''e'' \<in> set (numToString (Fin (of_int n)))"
  proof (cases "0 < n")
    case True
    with False have "10 ^ 21 \<le> n" by simp
    from pos_to_string_exponent [OF this assms] True show ?thesis by simp
  next
    case neg: False
    with False have n: "n < 0" and b: "10 ^ 21 \<le> - n" by simp_all
    have rp: "round_double (of_int (- n)) = Fin (of_int (- n))"
      using round_double_minus [of "of_int n"] assms by simp
    from pos_to_string_exponent [OF b rp] n show ?thesis by simp
  qed
  with int_numeral_no_exponent have "\<not> is_int_numeral (numToString (Fin (of_int n)))"
    by blast
  with False show ?thesis by simp
qed

text \<open>Rounding an integer from \<open>2 ^ 53\<close> on: the exponent of the last place is the number of bits less 53.\<close>

lemma round_double_int_big:
  assumes "2 ^ 53 \<le> x"
  shows "round_double (of_int x) =
           (if (2::rat) ^ 1024
                 \<le> of_int (round_even (of_int x / 2 ^ nat (ndigits 2 x - 53))
                            * 2 ^ nat (ndigits 2 x - 53))
            then PInf
            else Fin (of_int (round_even (of_int x / 2 ^ nat (ndigits 2 x - 53))
                              * 2 ^ nat (ndigits 2 x - 53))))"
proof -
  have x: "0 < x" using assms by (rule less_le_trans [rotated]) simp
  define d where "d = ndigits 2 x"
  from ndigits_bounds [of 2 x] x have b: "x < 2 ^ nat d" by (simp add: d_def)
  have "(2::int) ^ 53 < 2 ^ nat d" using assms b by linarith
  then have "53 < nat d" by (simp only: power_strict_increasing_iff [of 2])
  then have d: "54 \<le> d" by simp
  have fl: "floor_log 2 (of_int x) = d - 1" using x by (simp add: floor_log_int d_def)
  have ee: "max (- 1074) (floor_log 2 (of_int x) - 52) = d - 53"
    using d by (simp add: fl)
  have p: "pow2 (d - 53) = 2 ^ nat (d - 53)" using d by (simp add: pow2_def)
  have a: "\<bar>of_int x :: rat\<bar> = of_int x" using x by simp
  show ?thesis
    using x by (simp add: round_double_def a ee p Let_def d_def [symmetric])
qed

lemma round_double_numeral_big:
  "(2::int) ^ 53 \<le> numeral w \<Longrightarrow>
   round_double (numeral w) =
           (if (2::rat) ^ 1024
                 \<le> of_int (round_even (numeral w / 2 ^ nat (ndigits 2 (numeral w) - 53))
                            * 2 ^ nat (ndigits 2 (numeral w) - 53))
            then PInf
            else Fin (of_int (round_even (numeral w / 2 ^ nat (ndigits 2 (numeral w) - 53))
                              * 2 ^ nat (ndigits 2 (numeral w) - 53))))"
  using round_double_int_big [of "numeral w"] by simp

lemma floor_rat_numeral: "\<lfloor>(numeral a :: rat) / numeral b\<rfloor> = numeral a div numeral b"
  using floor_divide_of_int_eq [of "numeral a" "numeral b", where ?'a = rat] by simp

lemmas big_eval = round_double_numeral_big ndigits.simps round_even_def floor_rat_numeral

text \<open>The digits of \<open>2 ^ 53\<close> thousand: sixteen are needed.\<close>

lemma digits_of_example: "numToString (Fin 9007199254740992000) = ''9007199254740992000''"
proof -
  have n0: "floor_log 10 (9007199254740992000 :: rat) + 1 = 19"
    using floor_log_int [of 10 9007199254740992000] by (simp add: ndigits.simps)
  have t1: "try_digits 9007199254740992000 19 (Suc 0) = None"
    by (simp add: try_digits_def pow10_def big_eval num_eval Let_def)
  have t2: "try_digits 9007199254740992000 19 2 = None"
    by (simp add: try_digits_def pow10_def big_eval num_eval Let_def)
  have t3: "try_digits 9007199254740992000 19 3 = None"
    by (simp add: try_digits_def pow10_def big_eval num_eval Let_def)
  have t4: "try_digits 9007199254740992000 19 4 = None"
    by (simp add: try_digits_def pow10_def big_eval num_eval Let_def)
  have t5: "try_digits 9007199254740992000 19 5 = None"
    by (simp add: try_digits_def pow10_def big_eval num_eval Let_def)
  have t6: "try_digits 9007199254740992000 19 6 = None"
    by (simp add: try_digits_def pow10_def big_eval num_eval Let_def)
  have t7: "try_digits 9007199254740992000 19 7 = None"
    by (simp add: try_digits_def pow10_def big_eval num_eval Let_def)
  have t8: "try_digits 9007199254740992000 19 8 = None"
    by (simp add: try_digits_def pow10_def big_eval num_eval Let_def)
  have t9: "try_digits 9007199254740992000 19 9 = None"
    by (simp add: try_digits_def pow10_def big_eval num_eval Let_def)
  have t10: "try_digits 9007199254740992000 19 10 = None"
    by (simp add: try_digits_def pow10_def big_eval num_eval Let_def)
  have t11: "try_digits 9007199254740992000 19 11 = None"
    by (simp add: try_digits_def pow10_def big_eval num_eval Let_def)
  have t12: "try_digits 9007199254740992000 19 12 = None"
    by (simp add: try_digits_def pow10_def big_eval num_eval Let_def)
  have t13: "try_digits 9007199254740992000 19 13 = None"
    by (simp add: try_digits_def pow10_def big_eval num_eval Let_def)
  have t14: "try_digits 9007199254740992000 19 14 = None"
    by (simp add: try_digits_def pow10_def big_eval num_eval Let_def)
  have t15: "try_digits 9007199254740992000 19 15 = None"
    by (simp add: try_digits_def pow10_def big_eval num_eval Let_def)
  have t16: "try_digits 9007199254740992000 19 16 = Some (9007199254740992, 19)"
    by (simp add: try_digits_def pow10_def big_eval num_eval Let_def)
  have s16: "shortest_digits 9007199254740992000 19 16 = (9007199254740992, 19)"
    by (subst shortest_digits.simps) (simp add: t16)
  have s15: "shortest_digits 9007199254740992000 19 15 = (9007199254740992, 19)"
    by (subst shortest_digits.simps) (simp add: t15 s16)
  have s14: "shortest_digits 9007199254740992000 19 14 = (9007199254740992, 19)"
    by (subst shortest_digits.simps) (simp add: t14 s15)
  have s13: "shortest_digits 9007199254740992000 19 13 = (9007199254740992, 19)"
    by (subst shortest_digits.simps) (simp add: t13 s14)
  have s12: "shortest_digits 9007199254740992000 19 12 = (9007199254740992, 19)"
    by (subst shortest_digits.simps) (simp add: t12 s13)
  have s11: "shortest_digits 9007199254740992000 19 11 = (9007199254740992, 19)"
    by (subst shortest_digits.simps) (simp add: t11 s12)
  have s10: "shortest_digits 9007199254740992000 19 10 = (9007199254740992, 19)"
    by (subst shortest_digits.simps) (simp add: t10 s11)
  have s9: "shortest_digits 9007199254740992000 19 9 = (9007199254740992, 19)"
    by (subst shortest_digits.simps) (simp add: t9 s10)
  have s8: "shortest_digits 9007199254740992000 19 8 = (9007199254740992, 19)"
    by (subst shortest_digits.simps) (simp add: t8 s9)
  have s7: "shortest_digits 9007199254740992000 19 7 = (9007199254740992, 19)"
    by (subst shortest_digits.simps) (simp add: t7 s8)
  have s6: "shortest_digits 9007199254740992000 19 6 = (9007199254740992, 19)"
    by (subst shortest_digits.simps) (simp add: t6 s7)
  have s5: "shortest_digits 9007199254740992000 19 5 = (9007199254740992, 19)"
    by (subst shortest_digits.simps) (simp add: t5 s6)
  have s4: "shortest_digits 9007199254740992000 19 4 = (9007199254740992, 19)"
    by (subst shortest_digits.simps) (simp add: t4 s5)
  have s3: "shortest_digits 9007199254740992000 19 3 = (9007199254740992, 19)"
    by (subst shortest_digits.simps) (simp add: t3 s4)
  have s2: "shortest_digits 9007199254740992000 19 2 = (9007199254740992, 19)"
    by (subst shortest_digits.simps) (simp add: t2 s3)
  have s1: "shortest_digits 9007199254740992000 19 (Suc 0) = (9007199254740992, 19)"
    by (subst shortest_digits.simps) (simp add: t1 s2 [unfolded numeral_2_eq_2])
  show ?thesis
    by (simp add: pos_to_string_def n0 s1 layout_def text_eval numeral_3_eq_3)
qed




section \<open>Chapter markers: what the loop builds\<close>

lemma map_start_forEach_push: "map start (forEach_push chs i S) = map start chs @ S"
  by (induction S arbitrary: chs i) simp_all

lemma map_title_forEach_push:
  "map title (forEach_push chs i S) =
     map title chs @ map (\<lambda>k. ''Chapter '' @ show_nat (k + 2)) [i..<i + length S]"
proof (induction S arbitrary: chs i)
  case Nil
  then show ?case by simp
next
  case (Cons t S)
  have "[i..<i + length (t # S)] = i # [Suc i..<Suc i + length S]"
    by (simp add: upt_rec)
  then show ?case by (simp add: Cons.IH)
qed

lemma length_forEach_push: "length (forEach_push chs i S) = length chs + length S"
  by (induction S arbitrary: chs i) simp_all

lemma length_chapters: "length (chapters S) = length S + 1"
  by (simp add: chapters_def length_forEach_push)

lemma map_start_chapters: "map start (chapters S) = Fin 0 # S"
  by (simp add: chapters_def map_start_forEach_push)

lemma show_nat_1: "show_nat (Suc 0) = ''1''"
  by (simp add: text_eval)

lemma map_title_chapters:
  "map title (chapters S) = map (\<lambda>k. ''Chapter '' @ show_nat (k + 1)) [0..<length S + 1]"
proof -
  have h: "map title (chapters S)
        = ''Chapter 1'' # map (\<lambda>k. ''Chapter '' @ show_nat (k + 2)) [0..<length S]"
    by (simp add: chapters_def map_title_forEach_push)
  have "map (\<lambda>k. ''Chapter '' @ show_nat (k + 1)) [0..<Suc (length S)]
        = (''Chapter '' @ show_nat (0 + 1)) # map (\<lambda>k. ''Chapter '' @ show_nat (Suc k + 1)) [0..<length S]"
    by (rule map_upt_Suc)
  then show ?thesis unfolding h by (simp add: show_nat_1 del: upt_Suc)
qed


section \<open>The metadata document: what the loops append\<close>

lemma metadata_loop_cc_step:
  "i < length chs \<Longrightarrow>
   metadata_loop_cc chs D i m = metadata_loop_cc chs D (i + 1) (m @ record_of chs D i)"
  by (subst metadata_loop_cc.simps) (simp add: record_of_def chapter_record_def Let_def)

lemma metadata_loop_cc_stop: "\<not> i < length chs \<Longrightarrow> metadata_loop_cc chs D i m = m"
  by (subst metadata_loop_cc.simps) simp

lemma metadata_loop_cc_eq:
  "metadata_loop_cc chs D i m = m @ concat (map (record_of chs D) [i..<length chs])"
proof (induction "length chs - i" arbitrary: i m)
  case 0
  then show ?case by (simp add: metadata_loop_cc_stop)
next
  case (Suc n)
  then have lt: "i < length chs" and n: "n = length chs - (i + 1)" by simp_all
  have u: "[i..<length chs] = i # [i + 1..<length chs]" using lt by (simp add: upt_rec)
  show ?case
    unfolding metadata_loop_cc_step [OF lt] Suc.hyps(1) [OF n] u by simp
qed

lemma metadata_loop_p0_step:
  "i < length chs \<Longrightarrow>
   metadata_loop_p0 chs D i m = metadata_loop_p0 chs D (i + 1) (m @ record_of chs D i)"
  by (subst metadata_loop_p0.simps) (simp add: record_of_def chapter_record_def Let_def)

lemma metadata_loop_p0_stop: "\<not> i < length chs \<Longrightarrow> metadata_loop_p0 chs D i m = m"
  by (subst metadata_loop_p0.simps) simp

lemma metadata_loop_p0_eq:
  "metadata_loop_p0 chs D i m = m @ concat (map (record_of chs D) [i..<length chs])"
proof (induction "length chs - i" arbitrary: i m)
  case 0
  then show ?case by (simp add: metadata_loop_p0_stop)
next
  case (Suc n)
  then have lt: "i < length chs" and n: "n = length chs - (i + 1)" by simp_all
  have u: "[i..<length chs] = i # [i + 1..<length chs]" using lt by (simp add: upt_rec)
  show ?case
    unfolding metadata_loop_p0_step [OF lt] Suc.hyps(1) [OF n] u by simp
qed

lemma metadata_cc_eq:
  "metadata_cc chs D = '';FFMETADATA1\<newline>'' @ concat (map (record_of chs D) [0..<length chs])"
  by (simp add: metadata_cc_def metadata_loop_cc_eq)

lemma metadata_p0_eq:
  "metadata_p0 chs D = '';FFMETADATA1\<newline>'' @ concat (map (record_of chs D) [0..<length chs])"
  by (simp add: metadata_p0_def metadata_loop_p0_eq)

lemma start_chapters_nth: "i \<le> length S \<Longrightarrow> start (chapters S ! i) = (Fin 0 # S) ! i"
proof -
  assume "i \<le> length S"
  then have "i < length (chapters S)" by (simp add: length_chapters)
  then have "start (chapters S ! i) = map start (chapters S) ! i" by simp
  then show ?thesis by (simp only: map_start_chapters)
qed

lemma title_chapters_nth:
  "i \<le> length S \<Longrightarrow> title (chapters S ! i) = ''Chapter '' @ show_nat (i + 1)"
proof -
  assume i: "i \<le> length S"
  then have "i < length (chapters S)" by (simp add: length_chapters)
  then have "title (chapters S ! i) = map title (chapters S) ! i" by simp
  also have "\<dots> = map (\<lambda>k. ''Chapter '' @ show_nat (k + 1)) [0..<length S + 1] ! i"
    by (simp only: map_title_chapters)
  also have "\<dots> = ''Chapter '' @ show_nat (i + 1)"
    using i by (simp del: upt_Suc)
  finally show ?thesis .
qed

lemma startMs_chapters: "i \<le> length S \<Longrightarrow> startMs (chapters S) i = START_ms S i"
  by (simp add: startMs_def START_ms_def start_chapters_nth)

lemma endMs_chapters: "i \<le> length S \<Longrightarrow> endMs (chapters S) D i = END_ms S D i"
  by (auto simp: endMs_def END_ms_def START_ms_def length_chapters start_chapters_nth)

lemma records_of_chapters:
  "map (record_of (chapters S) D) [0..<length (chapters S)] =
   map (\<lambda>i. chapter_record (numToString (START_ms S i)) (numToString (END_ms S D i))
               (''Chapter '' @ show_nat (i + 1))) [0..<length S + 1]"
  by (rule map_cong)
     (simp_all add: length_chapters record_of_def startMs_chapters endMs_chapters
        title_chapters_nth del: upt_Suc)


section \<open>The milliseconds written\<close>

text \<open>
  The floor of a product and the difference of an integer and one are integers that are
  binary64 values, when they are finite.
\<close>

lemma js_floor_mul:
  assumes "js_floor (js_mul a b) = Fin q"
  shows "\<exists>n. q = of_int n \<and> round_double (of_int n) = Fin (of_int n)"
proof -
  from assms obtain x y where ab: "a = Fin x" "b = Fin y"
    by (cases a; cases b) (simp_all split: if_splits)
  from assms obtain w where w: "round_double (x * y) = Fin w" and q: "q = of_int \<lfloor>w\<rfloor>"
    unfolding ab by (cases "round_double (x * y)") simp_all
  from floor_round_double [OF w] q show ?thesis by blast
qed

lemma js_sub_one:
  assumes "js_sub (Fin (of_int b)) (Fin 1) = Fin q"
  shows "\<exists>n. q = of_int n \<and> round_double (of_int n) = Fin (of_int n)"
proof -
  from assms have "round_double (of_int (b - 1)) = Fin q" by simp
  from round_double_of_int [OF this] show ?thesis .
qed

lemma START_ms_integer:
  assumes "START_ms S i = Fin q"
  shows "\<exists>n. q = of_int n \<and> round_double (of_int n) = Fin (of_int n)"
  using assms unfolding START_ms_def by (rule js_floor_mul)

lemma END_ms_integer:
  assumes "END_ms S D i = Fin q"
  shows "\<exists>n. q = of_int n \<and> round_double (of_int n) = Fin (of_int n)"
proof (cases "i < length S")
  case True
  then have e: "js_sub (START_ms S (i + 1)) (Fin 1) = Fin q"
    using assms by (simp add: END_ms_def)
  then obtain p where p: "START_ms S (i + 1) = Fin p"
    by (cases "START_ms S (i + 1)") simp_all
  from START_ms_integer [OF p] obtain b where b: "p = of_int b" by blast
  from e have "js_sub (Fin (of_int b)) (Fin 1) = Fin q" by (simp only: p b)
  then show ?thesis by (rule js_sub_one)
next
  case False
  then have "js_floor (js_mul D (Fin 1000)) = Fin q"
    using assms by (simp add: END_ms_def)
  then show ?thesis by (rule js_floor_mul)
qed

text \<open>What is written for a start or an end in milliseconds.\<close>

lemma ms_written:
  assumes "\<And>q. v = Fin q \<Longrightarrow> \<exists>n. q = of_int n \<and> round_double (of_int n) = Fin (of_int n)"
  shows "(v = NaN \<or> v = PInf \<or> v = NInf \<or> (\<exists>m. v = Fin (of_int m))) \<and>
         (\<forall>n. v = Fin (of_int n) \<longrightarrow>
            (\<bar>n\<bar> < 2 ^ 53 \<longrightarrow> numToString v = show_int n) \<and>
            (is_int_numeral (numToString v) = (\<bar>n\<bar> < 10 ^ 21)))"
proof (intro conjI allI impI)
  show "v = NaN \<or> v = PInf \<or> v = NInf \<or> (\<exists>m. v = Fin (of_int m))"
    using assms by (cases v) auto
next
  fix n assume "v = Fin (of_int n)" "\<bar>n\<bar> < 2 ^ 53"
  then show "numToString v = show_int n" by (simp only: numToString_int)
next
  fix n assume v: "v = Fin (of_int n)"
  from assms [OF v] obtain m where "(of_int n :: rat) = of_int m"
    and r: "round_double (of_int m) = Fin (of_int m)" by blast
  then have "n = m" by (simp only: of_int_eq_iff)
  with r have "round_double (of_int n) = Fin (of_int n)" by simp
  from numToString_integer_iff [OF this]
  show "is_int_numeral (numToString v) = (\<bar>n\<bar> < 10 ^ 21)" by (simp only: v)
qed


section \<open>What the two patterns capture\<close>

lemma digit_not_space: "is_digit c \<Longrightarrow> \<not> is_space c"
  by (auto simp: is_digit_def is_space_def)

lemma digit_not_special:
  "is_digit c \<Longrightarrow> c \<noteq> CHR ''.'' \<and> c \<noteq> CHR ''+'' \<and> c \<noteq> CHR ''-'' \<and> c \<noteq> CHR ''I''"
  by (auto simp: is_digit_def)

lemma takeWhile_all: "list_all P xs \<Longrightarrow> takeWhile P (xs @ ys) = xs @ takeWhile P ys"
  by (induction xs) auto

lemma dropWhile_all: "list_all P xs \<Longrightarrow> dropWhile P (xs @ ys) = dropWhile P ys"
  by (induction xs) auto

lemma list_all_takeWhile: "list_all P (takeWhile P xs)"
  by (induction xs) auto

lemma hd_dropWhile_not: "dropWhile P xs = [] \<or> \<not> P (hd (dropWhile P xs))"
  by (induction xs) auto

lemma strip_prefix_Some: "strip_prefix p s = Some r \<Longrightarrow> s = p @ r"
  by (induction p s rule: strip_prefix.induct) (auto split: if_splits)

lemma strip_prefix_hd: "p \<noteq> [] \<Longrightarrow> hd p \<noteq> c \<Longrightarrow> strip_prefix p (c # cs) = None"
  by (cases p) auto

text \<open>
  A decimal: digits \<open>ip\<close>, not empty, then possibly a point and digits \<open>fp\<close>. \<^verbatim>\<open>parseFloat\<close>
  reads the whole of it, and reads no further when a point follows.
\<close>

lemma parse_exponent_point: "ext = [] \<or> hd ext = CHR ''.'' \<Longrightarrow> parse_exponent ext = 0"
  by (cases ext) (auto simp: parse_exponent_def)

lemma parse_unsigned_fraction:
  assumes "ip \<noteq> []" "list_all is_digit ip" "list_all is_digit fp"
    and "ext = [] \<or> hd ext = CHR ''.''"
  shows "parse_unsigned (ip @ ''.'' @ fp @ ext) = decimal_value ip fp 0"
proof -
  obtain c r where ip: "ip = c # r" using assms(1) by (cases ip) auto
  then have c: "is_digit c" using assms(2) by simp
  have inf: "strip_prefix ''Infinity'' (ip @ ''.'' @ fp @ ext) = None"
    using digit_not_special [OF c] by (auto simp: ip)
  have t1: "takeWhile is_digit (ip @ ''.'' @ fp @ ext) = ip"
    by (simp add: takeWhile_all [OF assms(2)] is_digit_def)
  have d1: "dropWhile is_digit (ip @ ''.'' @ fp @ ext) = ''.'' @ fp @ ext"
    by (simp add: dropWhile_all [OF assms(2)] is_digit_def)
  have m: "takeWhile is_digit ext = [] \<and> dropWhile is_digit ext = ext"
    using assms(4) by (cases ext) (auto simp: is_digit_def)
  have t2: "takeWhile is_digit (fp @ ext) = fp"
    by (simp add: takeWhile_all [OF assms(3)] m)
  have d2: "dropWhile is_digit (fp @ ext) = ext"
    by (simp add: dropWhile_all [OF assms(3)] m)
  show ?thesis
    unfolding parse_unsigned_def inf t1 d1
    using assms(1) by (simp add: t2 d2 parse_exponent_point [OF assms(4)])
qed

lemma parse_unsigned_digits:
  assumes "ip \<noteq> []" "list_all is_digit ip"
  shows "parse_unsigned ip = decimal_value ip [] 0"
proof -
  obtain c r where ip: "ip = c # r" using assms(1) by (cases ip) auto
  then have c: "is_digit c" using assms(2) by simp
  have inf: "strip_prefix ''Infinity'' ip = None"
    using digit_not_special [OF c] by (auto simp: ip)
  have t1: "takeWhile is_digit ip = ip" "dropWhile is_digit ip = []"
    using assms(2) by (simp_all add: list_all_iff)
  show ?thesis
    unfolding parse_unsigned_def inf t1
    using assms(1) by (simp add: parse_exponent_def)
qed

lemma parseFloat_digit_first:
  assumes "s \<noteq> []" "is_digit (hd s)"
  shows "parseFloat s = parse_unsigned s"
proof -
  obtain c r where s: "s = c # r" using assms(1) by (cases s) auto
  then have c: "is_digit c" using assms(2) by simp
  show ?thesis
    using digit_not_space [OF c] digit_not_special [OF c] by (simp add: parseFloat_def s)
qed

lemma parseFloat_fraction:
  assumes "ip \<noteq> []" "list_all is_digit ip" "list_all is_digit fp"
    and "ext = [] \<or> hd ext = CHR ''.''"
  shows "parseFloat (ip @ ''.'' @ fp @ ext) = decimal_value ip fp 0"
proof -
  have "is_digit (hd (ip @ ''.'' @ fp @ ext))" using assms(1,2) by (cases ip) auto
  then have "parseFloat (ip @ ''.'' @ fp @ ext) = parse_unsigned (ip @ ''.'' @ fp @ ext)"
    using assms(1) by (intro parseFloat_digit_first) auto
  then show ?thesis by (simp only: parse_unsigned_fraction [OF assms])
qed

lemma parseFloat_digits:
  assumes "ip \<noteq> []" "list_all is_digit ip"
  shows "parseFloat ip = decimal_value ip [] 0"
proof -
  have "is_digit (hd ip)" using assms by (cases ip) auto
  then have "parseFloat ip = parse_unsigned ip"
    using assms(1) by (intro parseFloat_digit_first) auto
  then show ?thesis by (simp only: parse_unsigned_digits [OF assms])
qed

text \<open>What a match of the strict pattern consists of.\<close>

lemma match_strict_parts:
  assumes "match_strict marker s = Some (cap, rest)"
  shows "\<exists>r ip fp. strip_prefix marker s = Some r \<and> dropWhile is_space r = cap @ rest \<and>
           ip \<noteq> [] \<and> list_all is_digit ip \<and> list_all is_digit fp \<and>
           (cap = ip \<and> (rest = [] \<or> \<not> is_numch (hd rest)) \<or>
            cap = ip @ ''.'' @ fp \<and> (rest = [] \<or> \<not> is_digit (hd rest)))"
proof -
  from assms obtain r where r: "strip_prefix marker s = Some r"
    by (auto simp: match_strict_def split: option.splits)
  define r1 where "r1 = dropWhile is_space r"
  define ip where "ip = takeWhile is_digit r1"
  define r2 where "r2 = dropWhile is_digit r1"
  have split1: "r1 = ip @ r2" by (simp add: ip_def r2_def)
  have ip_ne: "ip \<noteq> []"
    using assms r by (auto simp: match_strict_def r1_def ip_def Let_def split: if_splits)
  have ip_d: "list_all is_digit ip" by (simp add: ip_def list_all_takeWhile)
  have r2_nd: "r2 = [] \<or> \<not> is_digit (hd r2)" unfolding r2_def by (rule hd_dropWhile_not)
  show ?thesis
  proof (cases "r2 \<noteq> [] \<and> hd r2 = CHR ''.''")
    case True
    define fp where "fp = takeWhile is_digit (tl r2)"
    have cap: "cap = ip @ ''.'' @ fp" and rest: "rest = dropWhile is_digit (tl r2)"
      using assms r True ip_ne
      by (auto simp: match_strict_def r1_def ip_def r2_def fp_def Let_def)
    have "r2 = CHR ''.'' # tl r2" using True by (cases r2) auto
    also have "tl r2 = fp @ rest" by (simp add: fp_def rest)
    finally have "r1 = cap @ rest" by (simp add: split1 cap)
    moreover have "rest = [] \<or> \<not> is_digit (hd rest)" unfolding rest by (rule hd_dropWhile_not)
    moreover have "list_all is_digit fp" by (simp add: fp_def list_all_takeWhile)
    ultimately show ?thesis using r ip_ne ip_d cap unfolding r1_def by blast
  next
    case False
    then have cap: "cap = ip" and rest: "rest = r2"
      using assms r ip_ne by (auto simp: match_strict_def r1_def ip_def r2_def Let_def)
    have "rest = [] \<or> \<not> is_numch (hd rest)"
      using False r2_nd by (auto simp: rest is_numch_def)
    moreover have "r1 = cap @ rest" by (simp add: split1 cap rest)
    moreover have "list_all is_digit []" by simp
    ultimately show ?thesis using r ip_ne ip_d cap unfolding r1_def by blast
  qed
qed

lemma match_strict_suffix:
  assumes "match_strict marker s = Some (cap, rest)"
  shows "\<exists>pre. s = pre @ rest"
proof -
  from match_strict_parts [OF assms] obtain r where
    r: "strip_prefix marker s = Some r" and d: "dropWhile is_space r = cap @ rest" by blast
  have "r = takeWhile is_space r @ dropWhile is_space r" by simp
  then have "s = (marker @ takeWhile is_space r @ cap) @ rest"
    using strip_prefix_Some [OF r] d by simp
  then show ?thesis ..
qed

text \<open>Every timestamp of the strict pattern is a number, and is not negative.\<close>

lemma digit_val_nonneg: "is_digit c \<Longrightarrow> 0 \<le> digit_val c"
  by (simp add: is_digit_def digit_val_def)

lemma digits_val_nonneg: "list_all is_digit ds \<Longrightarrow> 0 \<le> digits_val ds"
proof (induction ds rule: rev_induct)
  case Nil
  then show ?case by (simp add: digits_val_def)
next
  case (snoc c ds)
  then have "0 \<le> digits_val ds" "0 \<le> digit_val c" by (simp_all add: digit_val_nonneg)
  then show ?case by (simp add: digits_val_snoc)
qed

lemma round_double_nonneg: "0 \<le> q \<Longrightarrow> js_ge (round_double q) (Fin 0)"
proof (cases "q = 0")
  case True
  then show ?thesis by (simp add: round_double_def)
next
  case False
  assume "0 \<le> q"
  with False have q: "0 < q" by simp
  define e where "e = max (- 1074) (floor_log 2 \<bar>q\<bar> - 52)"
  have "0 \<le> \<bar>q\<bar> / pow2 e" using pow2_pos [of e] by simp
  then have "0 \<le> round_even (\<bar>q\<bar> / pow2 e)" by (rule round_even_nonneg)
  then have "0 \<le> (of_int (round_even (\<bar>q\<bar> / pow2 e)) :: rat) * pow2 e"
    using pow2_pos [of e] by simp
  then show ?thesis using q by (simp add: round_double_def Let_def e_def)
qed

lemma decimal_value_nonneg:
  "list_all is_digit ip \<Longrightarrow> list_all is_digit fp \<Longrightarrow> js_ge (decimal_value ip fp e) (Fin 0)"
proof -
  assume "list_all is_digit ip" "list_all is_digit fp"
  then have "0 \<le> digits_val (ip @ fp)" by (intro digits_val_nonneg) simp
  then have "0 \<le> (of_int (digits_val (ip @ fp)) :: rat) * pow10 (e - int (length fp))"
    using pow10_pos [of "e - int (length fp)"] by simp
  then show ?thesis unfolding decimal_value_def by (rule round_double_nonneg)
qed

lemma match_strict_nonneg:
  assumes "match_strict marker s = Some (cap, rest)"
  shows "js_ge (parseFloat cap) (Fin 0)"
proof -
  from match_strict_parts [OF assms] obtain ip fp where
    ip: "ip \<noteq> []" "list_all is_digit ip" and fp: "list_all is_digit fp"
    and cap: "cap = ip \<or> cap = ip @ ''.'' @ fp" by blast
  from cap show ?thesis
  proof
    assume "cap = ip"
    then show ?thesis using parseFloat_digits [OF ip] decimal_value_nonneg [OF ip(2), of "[]" 0]
      by simp
  next
    assume "cap = ip @ ''.'' @ fp"
    then show ?thesis
      using parseFloat_fraction [OF ip fp, of "[]"] decimal_value_nonneg [OF ip(2) fp, of 0]
      by simp
  qed
qed

lemma exec_strict_nonneg: "t \<in> set (exec_strict marker s) \<Longrightarrow> js_ge t (Fin 0)"
proof (induction "length s" arbitrary: s rule: less_induct)
  case less
  show ?case
  proof (cases "match_strict marker s")
    case None
    then show ?thesis
    proof (cases s)
      case Nil
      with None less.prems show ?thesis by (simp add: exec_strict.simps)
    next
      case (Cons c cs)
      with None less.prems have "t \<in> set (exec_strict marker cs)"
        by (subst (asm) exec_strict.simps) simp
      with less.hyps [of cs] Cons show ?thesis by simp
    qed
  next
    case (Some p)
    obtain cap rest where p: "p = (cap, rest)" by (cases p)
    with Some have m: "match_strict marker s = Some (cap, rest)" by simp
    from less.prems m have "t = parseFloat cap \<or> t \<in> set (exec_strict marker rest)"
      by (subst (asm) exec_strict.simps) auto
    then show ?thesis
      using match_strict_nonneg [OF m] less.hyps [OF match_strict_shorter [OF m]] by auto
  qed
qed

lemma js_ge_not_nan: "js_ge t (Fin 0) \<Longrightarrow> \<not> isNaN t"
  by (cases t) auto

text \<open>
  Where the strict pattern matches, the loose pattern matches too; its group may run on over
  further points and digits, which \<^verbatim>\<open>parseFloat\<close> does not read.
\<close>

lemma digits_numch: "list_all is_digit ds \<Longrightarrow> list_all is_numch ds"
  by (induction ds) (auto simp: is_numch_def)

lemma match_loose_of_strict:
  assumes "match_strict marker s = Some (cap, rest)"
  shows "match_loose marker s = Some (cap @ takeWhile is_numch rest, dropWhile is_numch rest) \<and>
         parseFloat (cap @ takeWhile is_numch rest) = parseFloat cap"
proof -
  from match_strict_parts [OF assms] obtain r ip fp where
    r: "strip_prefix marker s = Some r" and d: "dropWhile is_space r = cap @ rest"
    and ip: "ip \<noteq> []" "list_all is_digit ip" and fp: "list_all is_digit fp"
    and cap: "cap = ip \<and> (rest = [] \<or> \<not> is_numch (hd rest)) \<or>
              cap = ip @ ''.'' @ fp \<and> (rest = [] \<or> \<not> is_digit (hd rest))" by blast
  have capn: "list_all is_numch cap" and cap_ne: "cap \<noteq> []"
    using cap ip fp digits_numch [OF ip(2)] digits_numch [OF fp] by (auto simp: is_numch_def)
  have m: "match_loose marker s = Some (cap @ takeWhile is_numch rest, dropWhile is_numch rest)"
    using cap_ne
    by (simp add: match_loose_def r d takeWhile_all [OF capn] dropWhile_all [OF capn] Let_def)
  from cap have "parseFloat (cap @ takeWhile is_numch rest) = parseFloat cap"
  proof
    assume a: "cap = ip \<and> (rest = [] \<or> \<not> is_numch (hd rest))"
    then have "takeWhile is_numch rest = []" by (cases rest) auto
    then show ?thesis by simp
  next
    assume a: "cap = ip @ ''.'' @ fp \<and> (rest = [] \<or> \<not> is_digit (hd rest))"
    define ext where "ext = takeWhile is_numch rest"
    have "ext = [] \<or> hd ext = CHR ''.''"
      using a by (cases rest) (auto simp: ext_def is_numch_def)
    from parseFloat_fraction [OF ip fp this] parseFloat_fraction [OF ip fp, of "[]"]
    show ?thesis using a by (simp add: ext_def)
  qed
  with m show ?thesis by simp
qed

lemma exec_loose_skip:
  assumes "marker \<noteq> []" "\<not> is_numch (hd marker)"
  shows "exec_loose marker (dropWhile is_numch t) = exec_loose marker t"
proof (induction t)
  case Nil
  then show ?case by simp
next
  case (Cons c cs)
  show ?case
  proof (cases "is_numch c")
    case True
    then have "hd marker \<noteq> c" using assms(2) by auto
    from strip_prefix_hd [OF assms(1) this]
    have "match_loose marker (c # cs) = None" by (simp add: match_loose_def)
    then have "exec_loose marker (c # cs) = exec_loose marker cs"
      by (subst exec_loose.simps) simp
    with True Cons.IH show ?thesis by simp
  next
    case False
    then show ?thesis by simp
  qed
qed

lemma dot_free_here: "dot_free marker s \<Longrightarrow> no_dot_here marker s"
  by (cases s) simp_all

lemma dot_free_suffix: "dot_free marker (pre @ s) \<Longrightarrow> dot_free marker s"
  by (induction pre) simp_all

lemma match_loose_none:
  assumes "match_strict marker s = None" "no_dot_here marker s"
  shows "match_loose marker s = None"
proof (cases "strip_prefix marker s")
  case None
  then show ?thesis by (simp add: match_loose_def)
next
  case (Some r)
  define r1 where "r1 = dropWhile is_space r"
  have "takeWhile is_digit r1 = []"
    using assms(1) Some by (auto simp: match_strict_def r1_def Let_def split: if_splits)
  moreover have "r1 = [] \<or> hd r1 \<noteq> CHR ''.''"
    using assms(2) Some by (auto simp: no_dot_here_def r1_def split: list.splits)
  ultimately have "takeWhile is_numch r1 = []"
    by (cases r1) (auto simp: is_numch_def split: if_splits)
  then show ?thesis using Some by (simp add: match_loose_def r1_def)
qed

lemma exec_loose_eq_strict:
  assumes "marker \<noteq> []" "\<not> is_numch (hd marker)"
  shows "dot_free marker s \<Longrightarrow> exec_loose marker s = exec_strict marker s"
proof (induction "length s" arbitrary: s rule: less_induct)
  case less
  show ?case
  proof (cases "match_strict marker s")
    case None
    from match_loose_none [OF None dot_free_here [OF less.prems]]
    have l: "match_loose marker s = None" .
    show ?thesis
    proof (cases s)
      case Nil
      with None l show ?thesis by (simp add: exec_loose.simps exec_strict.simps)
    next
      case (Cons c cs)
      with less.prems have "dot_free marker cs" by simp
      with less.hyps [of cs] Cons have "exec_loose marker cs = exec_strict marker cs" by simp
      with None l Cons show ?thesis
        by (subst exec_loose.simps, subst exec_strict.simps) simp
    qed
  next
    case (Some p)
    obtain cap rest where p: "p = (cap, rest)" by (cases p)
    with Some have m: "match_strict marker s = Some (cap, rest)" by simp
    from match_strict_suffix [OF m] less.prems have "dot_free marker rest"
      by (auto dest: dot_free_suffix)
    with less.hyps [OF match_strict_shorter [OF m]]
    have ih: "exec_loose marker rest = exec_strict marker rest" .
    from match_loose_of_strict [OF m] exec_loose_skip [OF assms, of rest] ih m
    show ?thesis
      by (subst exec_loose.simps, subst exec_strict.simps) simp
  qed
qed


lemma strict_pattern_nonneg: "t \<in> set (silenceEnds_cc text) \<Longrightarrow> js_ge t (Fin 0)"
  unfolding silenceEnds_cc_def by (rule exec_strict_nonneg)

section \<open>Reports of alternating events\<close>

































section \<open>Running the programs on given texts\<close>

lemmas scan_eval = silenceEnds_cc_def silenceStarts_cc_def silenceEnds_p0_def
  silenceStarts_p0_def exec_strict.simps exec_loose.simps match_strict_def match_loose_def
  is_numch_def

lemmas doc_eval = metadata_cc_eq metadata_p0_eq record_of_def chapter_record_def startMs_def
  endMs_def chapters_def pos_to_string_numeral pos_to_string_1 upt_rec

lemma duration_10: "parseFloat (trim ''10\<newline>'') = Fin 10"
  by (simp add: parse_eval text_eval num_eval)

lemma no_silence_cc: "silenceEnds_cc [] = []"
  by (simp add: scan_eval)

lemma no_silence_p0: "silenceEnds_p0 [] = []"
  by (simp add: scan_eval)


section \<open>Claims\<close>

text \<open>
  C1. For every sequence \<open>S\<close> of silence ends (empty, with repeated values, with values at or
  past the duration, which this step does not read), the chapters built are \<open>|S| + 1\<close>: the
  first starts at \<open>0\<close>, chapter \<open>k + 1\<close> starts at \<open>S[k]\<close> as it was reported, and the titles are
  \<open>Chapter 1\<close> to \<open>Chapter n\<close> in this order.
\<close>

theorem chapters_of_silence_ends:
  "length (chapters S) = length S + 1 \<and>
   map start (chapters S) = Fin 0 # S \<and>
   map title (chapters S) = map (\<lambda>k. ''Chapter '' @ show_nat (k + 1)) [0..<length S + 1]"
proof (intro conjI)
  show "length (chapters S) = length S + 1"
    by (rule length_chapters)
  show "map start (chapters S) = Fin 0 # S"
    by (rule map_start_chapters)
  show "map title (chapters S) = map (\<lambda>k. ''Chapter '' @ show_nat (k + 1)) [0..<length S + 1]"
    by (rule map_title_chapters)
qed


text \<open>
  C2, as stated: the END of a chapter that is not the last equals the START of the next
  chapter minus one, as emitted. The subtraction is that of binary64 numbers: for a silence
  end at \<open>2 ^ 53\<close> seconds the next START is \<open>9007199254740992000\<close>, the difference with one
  rounds back to it, and the END written is the same text as the next START.
\<close>

theorem end_equals_next_start_counterexample:
  "silenceEnds_cc ''silence_end: 9007199254740992\<newline>'' = [Fin 9007199254740992] \<and>
   silenceEnds_p0 ''silence_end: 9007199254740992\<newline>'' = [Fin 9007199254740992] \<and>
   startMs (chapters [Fin 9007199254740992]) 1 = Fin 9007199254740992000 \<and>
   endMs (chapters [Fin 9007199254740992]) (Fin 10) 0 = Fin 9007199254740992000 \<and>
   endMs (chapters [Fin 9007199254740992]) (Fin 10) 0 \<noteq> Fin (9007199254740992000 - 1) \<and>
   metadata_cc (chapters [Fin 9007199254740992]) (Fin 10)
     = concat ['';FFMETADATA1\<newline>'',
         ''[CHAPTER]\<newline>TIMEBASE=1/1000\<newline>START=0\<newline>END=9007199254740992000\<newline>title=Chapter 1\<newline>\<newline>'',
         ''[CHAPTER]\<newline>TIMEBASE=1/1000\<newline>START=9007199254740992000\<newline>END=10000\<newline>title=Chapter 2\<newline>\<newline>''] \<and>
   main_p0 \<lparr>exitCode = 0, stdout = [], stderr = ''silence_end: 9007199254740992\<newline>''\<rparr>
           \<lparr>exitCode = 0, stdout = ''10\<newline>'', stderr = []\<rparr>
     = Inr (concat ['';FFMETADATA1\<newline>'',
         ''[CHAPTER]\<newline>TIMEBASE=1/1000\<newline>START=0\<newline>END=9007199254740992000\<newline>title=Chapter 1\<newline>\<newline>'',
         ''[CHAPTER]\<newline>TIMEBASE=1/1000\<newline>START=9007199254740992000\<newline>END=10000\<newline>title=Chapter 2\<newline>\<newline>''])"
proof -
  have r53: "round_double 9007199254740992 = Fin 9007199254740992"
    by (simp add: big_eval Let_def)
  have mul: "round_double 9007199254740992000 = Fin 9007199254740992000"
    by (simp add: big_eval Let_def)
  have sub: "round_double 9007199254740991999 = Fin 9007199254740992000"
    by (simp add: big_eval Let_def)
  have cc: "silenceEnds_cc ''silence_end: 9007199254740992\<newline>'' = [Fin 9007199254740992]"
    by (simp add: scan_eval parse_eval text_eval r53)
  have p0: "silenceEnds_p0 ''silence_end: 9007199254740992\<newline>'' = [Fin 9007199254740992]"
    by (simp add: scan_eval parse_eval text_eval r53)
  have s1: "startMs (chapters [Fin 9007199254740992]) 1 = Fin 9007199254740992000"
    by (simp add: startMs_def chapters_def mul)
  have s0: "startMs (chapters [Fin 9007199254740992]) 0 = Fin 0"
    by (simp add: startMs_def chapters_def num_eval)
  have e0: "endMs (chapters [Fin 9007199254740992]) (Fin 10) 0 = Fin 9007199254740992000"
    by (simp add: endMs_def chapters_def mul sub)
  have e1: "endMs (chapters [Fin 9007199254740992]) (Fin 10) 1 = Fin 10000"
    by (simp add: endMs_def chapters_def num_eval)
  have t: "title (chapters [Fin 9007199254740992] ! 0) = ''Chapter 1''"
    "title (chapters [Fin 9007199254740992] ! 1) = ''Chapter 2''"
    by (simp_all add: chapters_def text_eval)
  have n0: "numToString (Fin 0) = ''0''" by simp
  have n1: "numToString (Fin 10000) = ''10000''"
    by (simp add: pos_to_string_numeral text_eval)
  have r0: "record_of (chapters [Fin 9007199254740992]) (Fin 10) 0
     = chapter_record ''0'' ''9007199254740992000'' ''Chapter 1''"
    unfolding record_of_def s0 e0 t n0 digits_of_example by (rule refl)
  have r1: "record_of (chapters [Fin 9007199254740992]) (Fin 10) 1
     = chapter_record ''9007199254740992000'' ''10000'' ''Chapter 2''"
    unfolding record_of_def s1 e1 t n1 digits_of_example by (rule refl)
  have u: "[0..<length (chapters [Fin 9007199254740992])] = [0, 1]"
    by (simp add: length_chapters upt_rec)
  have doc: "metadata_cc (chapters [Fin 9007199254740992]) (Fin 10)
     = concat ['';FFMETADATA1\<newline>'',
         ''[CHAPTER]\<newline>TIMEBASE=1/1000\<newline>START=0\<newline>END=9007199254740992000\<newline>title=Chapter 1\<newline>\<newline>'',
         ''[CHAPTER]\<newline>TIMEBASE=1/1000\<newline>START=9007199254740992000\<newline>END=10000\<newline>title=Chapter 2\<newline>\<newline>'']"
    unfolding metadata_cc_eq u by (simp add: r0 r1 [unfolded One_nat_def] chapter_record_def)
  have run: "main_p0 \<lparr>exitCode = 0, stdout = [], stderr = ''silence_end: 9007199254740992\<newline>''\<rparr>
           \<lparr>exitCode = 0, stdout = ''10\<newline>'', stderr = []\<rparr>
     = Inr (metadata_cc (chapters [Fin 9007199254740992]) (Fin 10))"
    by (simp add: main_p0_def p0 duration_10 metadata_p0_eq metadata_cc_eq Let_def)
  have ne: "endMs (chapters [Fin 9007199254740992]) (Fin 10) 0 \<noteq> Fin (9007199254740992000 - 1)"
    unfolding e0 by simp
  from cc p0 s1 e0 ne doc run show ?thesis by (simp only: simp_thms)
qed

text \<open>
  C2, amended: for the chapters built from any silence ends \<open>S\<close> and any duration \<open>D\<close>, the
  END of a chapter that is not the last is computed as the floor of a thousand times the
  next chapter's start, minus one, which is the START of the next chapter minus one in the
  arithmetic of numbers; when that START is the integer \<open>b\<close> and \<open>b - 1\<close> is below \<open>2 ^ 53\<close> in
  magnitude, the END is the integer \<open>b - 1\<close> and is written as its decimal numeral (as the
  START is written as the numeral of \<open>b\<close>, when \<open>b\<close> is below \<open>2 ^ 53\<close> in magnitude). The END
  of the last chapter is the floor of a thousand times \<open>D\<close>. These are the values that the
  records of the document of either program carry.
\<close>

theorem encoder_end_times:
  "(\<forall>i<length S.
      endMs (chapters S) D i
        = js_sub (js_floor (js_mul (start (chapters S ! (i + 1))) (Fin 1000))) (Fin 1) \<and>
      endMs (chapters S) D i = js_sub (startMs (chapters S) (i + 1)) (Fin 1) \<and>
      (\<forall>b. startMs (chapters S) (i + 1) = Fin (of_int b) \<and> \<bar>b - 1\<bar> < 2 ^ 53 \<longrightarrow>
           endMs (chapters S) D i = Fin (of_int (b - 1)) \<and>
           numToString (endMs (chapters S) D i) = show_int (b - 1) \<and>
           (\<bar>b\<bar> < 2 ^ 53 \<longrightarrow> numToString (startMs (chapters S) (i + 1)) = show_int b))) \<and>
   endMs (chapters S) D (length S) = js_floor (js_mul D (Fin 1000)) \<and>
   metadata_cc (chapters S) D =
     '';FFMETADATA1\<newline>'' @ concat (map (record_of (chapters S) D) [0..<length S + 1]) \<and>
   metadata_p0 (chapters S) D =
     '';FFMETADATA1\<newline>'' @ concat (map (record_of (chapters S) D) [0..<length S + 1])"
proof (intro conjI allI impI)
  fix i assume i: "i < length S"
  show d: "endMs (chapters S) D i
        = js_sub (js_floor (js_mul (start (chapters S ! (i + 1))) (Fin 1000))) (Fin 1)"
    using i by (simp add: endMs_def length_chapters)
  then show "endMs (chapters S) D i = js_sub (startMs (chapters S) (i + 1)) (Fin 1)"
    by (simp add: startMs_def)
  fix b assume b: "startMs (chapters S) (i + 1) = Fin (of_int b) \<and> \<bar>b - 1\<bar> < 2 ^ 53"
  have "endMs (chapters S) D i = js_sub (Fin (of_int b)) (Fin 1)"
    using d b by (simp add: startMs_def)
  also have "\<dots> = round_double (of_int (b - 1))" by simp
  also have "\<dots> = Fin (of_int (b - 1))" using b by (intro round_double_int) simp
  finally show e: "endMs (chapters S) D i = Fin (of_int (b - 1))" .
  show "numToString (endMs (chapters S) D i) = show_int (b - 1)"
    unfolding e using b by (intro numToString_int) simp
  assume "\<bar>b\<bar> < 2 ^ 53"
  then show "numToString (startMs (chapters S) (i + 1)) = show_int b"
    using b by (simp only: numToString_int)
next
  show "endMs (chapters S) D (length S) = js_floor (js_mul D (Fin 1000))"
    by (simp add: endMs_def length_chapters)
  show "metadata_cc (chapters S) D =
     '';FFMETADATA1\<newline>'' @ concat (map (record_of (chapters S) D) [0..<length S + 1])"
    by (simp only: metadata_cc_eq length_chapters)
  show "metadata_p0 (chapters S) D =
     '';FFMETADATA1\<newline>'' @ concat (map (record_of (chapters S) D) [0..<length S + 1])"
    by (simp only: metadata_p0_eq length_chapters)
qed

theorem encoder_end_times_witness:
  "endMs (chapters [Fin 5]) (Fin 10) 0 = Fin 4999 \<and>
   numToString (endMs (chapters [Fin 5]) (Fin 10) 0) = ''4999'' \<and>
   numToString (startMs (chapters [Fin 5]) 1) = ''5000'' \<and>
   endMs (chapters [Fin 5]) (Fin 10) 1 = Fin 10000"
proof -
  note t = encoder_end_times [of "[Fin 5]" "Fin 10"]
  have l: "0 < length [Fin 5 :: jsnum]" by simp
  have s: "startMs (chapters [Fin 5]) (0 + 1) = Fin (of_int 5000) \<and> \<bar>(5000::int) - 1\<bar> < 2 ^ 53"
    by (simp add: startMs_def chapters_def num_eval)
  have b: "\<bar>5000::int\<bar> < 2 ^ 53" by simp
  note m = t [THEN conjunct1, rule_format, OF l, THEN conjunct2, THEN conjunct2, rule_format, OF s]
  have e: "endMs (chapters [Fin 5]) (Fin 10) 0 = Fin (of_int (5000 - 1))"
    by (rule m [THEN conjunct1])
  have te: "numToString (endMs (chapters [Fin 5]) (Fin 10) 0) = show_int (5000 - 1)"
    by (rule m [THEN conjunct2, THEN conjunct1])
  have ts: "numToString (startMs (chapters [Fin 5]) (0 + 1)) = show_int 5000"
    by (rule m [THEN conjunct2, THEN conjunct2, rule_format, OF b])
  from t have "endMs (chapters [Fin 5]) (Fin 10) (length [Fin 5 :: jsnum])
      = js_floor (js_mul (Fin 10) (Fin 1000))" by (simp only: simp_thms)
  then have la: "endMs (chapters [Fin 5]) (Fin 10) 1 = Fin 10000" by (simp add: num_eval)
  have n: "show_int (5000 - 1) = ''4999''" "show_int 5000 = ''5000''"
    by (simp_all add: show_int_def text_eval)
  from e have e': "endMs (chapters [Fin 5]) (Fin 10) 0 = Fin 4999" by simp
  from te have te': "numToString (endMs (chapters [Fin 5]) (Fin 10) 0) = ''4999''"
    by (simp only: n)
  from ts have ts': "numToString (startMs (chapters [Fin 5]) 1) = ''5000''"
    by (simp only: n add_0)
  from e' te' ts' la show ?thesis by (intro conjI)
qed

text \<open>
  C3, as stated: a sequence of silence ends that is not non-decreasing makes the inference
  fail. It does not: both scans read the ends \<open>5.0\<close> and \<open>3.0\<close> in this order, the chapters
  start at \<open>0\<close>, \<open>5\<close> and \<open>3\<close>, the document built from them has a second chapter from 5000 to
  2999 and a third that starts at 3000, and \<^verbatim>\<open>src/unnamed/part_000\<close> writes it.
\<close>

theorem unordered_ends_counterexample:
  "silenceEnds_cc ''silence_end: 5.0\<newline>silence_end: 3.0\<newline>'' = [Fin 5, Fin 3] \<and>
   silenceEnds_p0 ''silence_end: 5.0\<newline>silence_end: 3.0\<newline>'' = [Fin 5, Fin 3] \<and>
   map start (chapters [Fin 5, Fin 3]) = [Fin 0, Fin 5, Fin 3] \<and>
   metadata_cc (chapters [Fin 5, Fin 3]) (Fin 10)
     = concat ['';FFMETADATA1\<newline>'',
         ''[CHAPTER]\<newline>TIMEBASE=1/1000\<newline>START=0\<newline>END=4999\<newline>title=Chapter 1\<newline>\<newline>'',
         ''[CHAPTER]\<newline>TIMEBASE=1/1000\<newline>START=5000\<newline>END=2999\<newline>title=Chapter 2\<newline>\<newline>'',
         ''[CHAPTER]\<newline>TIMEBASE=1/1000\<newline>START=3000\<newline>END=10000\<newline>title=Chapter 3\<newline>\<newline>''] \<and>
   main_p0 \<lparr>exitCode = 0, stdout = [],
             stderr = ''silence_end: 5.0\<newline>silence_end: 3.0\<newline>''\<rparr>
           \<lparr>exitCode = 0, stdout = ''10\<newline>'', stderr = []\<rparr>
     = Inr (concat ['';FFMETADATA1\<newline>'',
         ''[CHAPTER]\<newline>TIMEBASE=1/1000\<newline>START=0\<newline>END=4999\<newline>title=Chapter 1\<newline>\<newline>'',
         ''[CHAPTER]\<newline>TIMEBASE=1/1000\<newline>START=5000\<newline>END=2999\<newline>title=Chapter 2\<newline>\<newline>'',
         ''[CHAPTER]\<newline>TIMEBASE=1/1000\<newline>START=3000\<newline>END=10000\<newline>title=Chapter 3\<newline>\<newline>''])"
proof -
  have cc: "silenceEnds_cc ''silence_end: 5.0\<newline>silence_end: 3.0\<newline>'' = [Fin 5, Fin 3]"
    by (simp add: scan_eval parse_eval text_eval num_eval)
  have p0: "silenceEnds_p0 ''silence_end: 5.0\<newline>silence_end: 3.0\<newline>'' = [Fin 5, Fin 3]"
    by (simp add: scan_eval parse_eval text_eval num_eval)
  have st: "map start (chapters [Fin 5, Fin 3]) = [Fin 0, Fin 5, Fin 3]"
    by (simp add: chapters_def)
  have doc: "metadata_cc (chapters [Fin 5, Fin 3]) (Fin 10)
     = concat ['';FFMETADATA1\<newline>'',
         ''[CHAPTER]\<newline>TIMEBASE=1/1000\<newline>START=0\<newline>END=4999\<newline>title=Chapter 1\<newline>\<newline>'',
         ''[CHAPTER]\<newline>TIMEBASE=1/1000\<newline>START=5000\<newline>END=2999\<newline>title=Chapter 2\<newline>\<newline>'',
         ''[CHAPTER]\<newline>TIMEBASE=1/1000\<newline>START=3000\<newline>END=10000\<newline>title=Chapter 3\<newline>\<newline>'']"
    by (simp add: doc_eval text_eval num_eval)
  have run: "main_p0 \<lparr>exitCode = 0, stdout = [],
             stderr = ''silence_end: 5.0\<newline>silence_end: 3.0\<newline>''\<rparr>
           \<lparr>exitCode = 0, stdout = ''10\<newline>'', stderr = []\<rparr>
     = Inr (concat ['';FFMETADATA1\<newline>'',
         ''[CHAPTER]\<newline>TIMEBASE=1/1000\<newline>START=0\<newline>END=4999\<newline>title=Chapter 1\<newline>\<newline>'',
         ''[CHAPTER]\<newline>TIMEBASE=1/1000\<newline>START=5000\<newline>END=2999\<newline>title=Chapter 2\<newline>\<newline>'',
         ''[CHAPTER]\<newline>TIMEBASE=1/1000\<newline>START=3000\<newline>END=10000\<newline>title=Chapter 3\<newline>\<newline>''])"
    by (simp add: main_p0_def p0 duration_10 doc_eval text_eval num_eval)
  from cc p0 st doc run show ?thesis by (intro conjI)
qed

text \<open>
  C3, amended: the inference never fails. For every sequence \<open>S\<close> of silence ends,
  non-decreasing or not, the statements that both programs share give the chapters that
  start at \<open>0\<close> and then at the elements of \<open>S\<close> in the order reported; and
  \<^verbatim>\<open>src/unnamed/part_000\<close> writes the document of the chapters of the ends it read exactly
  when both tools exit with status \<open>0\<close> and the duration is not \<open>NaN\<close>, whatever the order
  of the ends.
\<close>

theorem runs_accept_any_order:
  "map start (chapters S) = Fin 0 # S \<and>
   ((\<exists>doc. main_p0 silenceProc ffprobeProc = Inr doc) =
      (exitCode silenceProc = 0 \<and> exitCode ffprobeProc = 0 \<and>
       \<not> isNaN (parseFloat (trim (stdout ffprobeProc))))) \<and>
   ((main_p0 silenceProc ffprobeProc =
       Inr (metadata_p0 (chapters (silenceEnds_p0 (stderr silenceProc)))
              (parseFloat (trim (stdout ffprobeProc))))) =
      (exitCode silenceProc = 0 \<and> exitCode ffprobeProc = 0 \<and>
       \<not> isNaN (parseFloat (trim (stdout ffprobeProc)))))"
proof (intro conjI)
  show "map start (chapters S) = Fin 0 # S"
    by (rule map_start_chapters)
  show "(\<exists>doc. main_p0 silenceProc ffprobeProc = Inr doc) =
      (exitCode silenceProc = 0 \<and> exitCode ffprobeProc = 0 \<and>
       \<not> isNaN (parseFloat (trim (stdout ffprobeProc))))"
    by (auto simp: main_p0_def Let_def)
  show "(main_p0 silenceProc ffprobeProc =
       Inr (metadata_p0 (chapters (silenceEnds_p0 (stderr silenceProc)))
              (parseFloat (trim (stdout ffprobeProc))))) =
      (exitCode silenceProc = 0 \<and> exitCode ffprobeProc = 0 \<and>
       \<not> isNaN (parseFloat (trim (stdout ffprobeProc))))"
    by (auto simp: main_p0_def Let_def)
qed

text \<open>
  C4, as stated: for every chapter sequence and duration the START and END lines carry an
  integer. They carry what the number prints as: for the duration \<open>Infinity\<close> the document
  of either encoder has the line \<open>END=Infinity\<close>, and \<^verbatim>\<open>src/unnamed/part_000\<close>, whose probe
  printed \<open>Infinity\<close>, writes it.
\<close>

theorem infinite_duration_counterexample:
  "metadata_cc (chapters []) PInf
     = concat ['';FFMETADATA1\<newline>'',
         ''[CHAPTER]\<newline>TIMEBASE=1/1000\<newline>START=0\<newline>END=Infinity\<newline>title=Chapter 1\<newline>\<newline>''] \<and>
   metadata_p0 (chapters []) PInf
     = concat ['';FFMETADATA1\<newline>'',
         ''[CHAPTER]\<newline>TIMEBASE=1/1000\<newline>START=0\<newline>END=Infinity\<newline>title=Chapter 1\<newline>\<newline>''] \<and>
   main_p0 \<lparr>exitCode = 0, stdout = [], stderr = []\<rparr>
           \<lparr>exitCode = 0, stdout = ''Infinity'', stderr = []\<rparr>
     = Inr (concat ['';FFMETADATA1\<newline>'',
         ''[CHAPTER]\<newline>TIMEBASE=1/1000\<newline>START=0\<newline>END=Infinity\<newline>title=Chapter 1\<newline>\<newline>'']) \<and>
   \<not> is_int_numeral ''Infinity''"
proof -
  have d: "parseFloat (trim ''Infinity'') = PInf"
    by (simp add: parse_eval text_eval)
  have cc: "metadata_cc (chapters []) PInf
     = concat ['';FFMETADATA1\<newline>'',
         ''[CHAPTER]\<newline>TIMEBASE=1/1000\<newline>START=0\<newline>END=Infinity\<newline>title=Chapter 1\<newline>\<newline>'']"
    by (simp add: doc_eval text_eval num_eval)
  have p0: "metadata_p0 (chapters []) PInf
     = concat ['';FFMETADATA1\<newline>'',
         ''[CHAPTER]\<newline>TIMEBASE=1/1000\<newline>START=0\<newline>END=Infinity\<newline>title=Chapter 1\<newline>\<newline>'']"
    by (simp add: doc_eval text_eval num_eval)
  have run: "main_p0 \<lparr>exitCode = 0, stdout = [], stderr = []\<rparr>
           \<lparr>exitCode = 0, stdout = ''Infinity'', stderr = []\<rparr>
     = Inr (metadata_p0 (chapters []) PInf)"
    by (simp add: main_p0_def no_silence_p0 d)
  have n: "\<not> is_int_numeral ''Infinity''"
    by (simp add: is_int_numeral_def is_digit_def)
  from cc p0 run n show ?thesis by (simp only: simp_thms)
qed

text \<open>
  C4, amended: for every sequence of silence ends and every duration the document of either
  program is the header line \<open>;FFMETADATA1\<close> followed by one record per chapter in ascending
  order, each the lines \<open>[CHAPTER]\<close>, \<open>TIMEBASE=1/1000\<close>, \<open>START=\<close> and \<open>END=\<close> with the text of
  the start and of the end in milliseconds, \<open>title=Chapter\<close> with the ordinal, and one empty
  line; nothing follows the last record. Each of the two values is \<open>NaN\<close>, an infinity or a
  finite integer. \<open>NaN\<close> and the infinities are written \<open>NaN\<close>, \<open>Infinity\<close> and \<open>-Infinity\<close>; a
  finite integer below \<open>2 ^ 53\<close> in magnitude is written as its decimal numeral, and a
  finite integer is written as an integer numeral (digits, after a minus sign for a
  negative value) exactly when it is below \<open>10 ^ 21\<close> in magnitude: from there on the text
  has an exponent. So the START and END lines carry an integer numeral for every value but
  \<open>NaN\<close>, the infinities and the integers from \<open>10 ^ 21\<close> on.
\<close>

theorem document_framing:
  "metadata_cc (chapters S) D =
     '';FFMETADATA1\<newline>'' @
     concat (map (\<lambda>i. chapter_record (numToString (START_ms S i)) (numToString (END_ms S D i))
                         (''Chapter '' @ show_nat (i + 1))) [0..<length S + 1]) \<and>
   metadata_p0 (chapters S) D =
     '';FFMETADATA1\<newline>'' @
     concat (map (\<lambda>i. chapter_record (numToString (START_ms S i)) (numToString (END_ms S D i))
                         (''Chapter '' @ show_nat (i + 1))) [0..<length S + 1]) \<and>
   numToString NaN = ''NaN'' \<and> numToString PInf = ''Infinity'' \<and>
   numToString NInf = ''-Infinity'' \<and>
   \<not> is_int_numeral ''NaN'' \<and> \<not> is_int_numeral ''Infinity'' \<and>
   \<not> is_int_numeral ''-Infinity'' \<and>
   (\<forall>i\<le>length S. \<forall>v\<in>{START_ms S i, END_ms S D i}.
      (v = NaN \<or> v = PInf \<or> v = NInf \<or> (\<exists>m. v = Fin (of_int m))) \<and>
      (\<forall>n. v = Fin (of_int n) \<longrightarrow>
         (\<bar>n\<bar> < 2 ^ 53 \<longrightarrow> numToString v = show_int n) \<and>
         (is_int_numeral (numToString v) = (\<bar>n\<bar> < 10 ^ 21))))"
proof -
  have cc: "metadata_cc (chapters S) D =
      '';FFMETADATA1\<newline>'' @ concat (map (record_of (chapters S) D) [0..<length (chapters S)])"
    by (rule metadata_cc_eq)
  have p0: "metadata_p0 (chapters S) D =
      '';FFMETADATA1\<newline>'' @ concat (map (record_of (chapters S) D) [0..<length (chapters S)])"
    by (rule metadata_p0_eq)
  have doc: "metadata_cc (chapters S) D =
     '';FFMETADATA1\<newline>'' @
     concat (map (\<lambda>i. chapter_record (numToString (START_ms S i)) (numToString (END_ms S D i))
                         (''Chapter '' @ show_nat (i + 1))) [0..<length S + 1])"
    "metadata_p0 (chapters S) D =
     '';FFMETADATA1\<newline>'' @
     concat (map (\<lambda>i. chapter_record (numToString (START_ms S i)) (numToString (END_ms S D i))
                         (''Chapter '' @ show_nat (i + 1))) [0..<length S + 1])"
    unfolding cc p0 records_of_chapters by (rule refl)+
  have lit: "numToString NaN = ''NaN''" "numToString PInf = ''Infinity''"
    "numToString NInf = ''-Infinity''" by simp_all
  have non: "\<not> is_int_numeral ''NaN''" "\<not> is_int_numeral ''Infinity''"
    "\<not> is_int_numeral ''-Infinity''"
    by (simp_all add: is_int_numeral_def is_digit_def)
  have val: "\<forall>i\<le>length S. \<forall>v\<in>{START_ms S i, END_ms S D i}.
      (v = NaN \<or> v = PInf \<or> v = NInf \<or> (\<exists>m. v = Fin (of_int m))) \<and>
      (\<forall>n. v = Fin (of_int n) \<longrightarrow>
         (\<bar>n\<bar> < 2 ^ 53 \<longrightarrow> numToString v = show_int n) \<and>
         (is_int_numeral (numToString v) = (\<bar>n\<bar> < 10 ^ 21)))"
  proof (intro allI impI ballI)
    fix i v assume "v \<in> {START_ms S i, END_ms S D i}"
    then have "v = START_ms S i \<or> v = END_ms S D i" by simp
    then have "\<And>q. v = Fin q \<Longrightarrow>
        \<exists>n. q = of_int n \<and> round_double (of_int n) = Fin (of_int n)"
      using START_ms_integer [of S i] END_ms_integer [of S D i] by auto
    then show "(v = NaN \<or> v = PInf \<or> v = NInf \<or> (\<exists>m. v = Fin (of_int m))) \<and>
      (\<forall>n. v = Fin (of_int n) \<longrightarrow>
         (\<bar>n\<bar> < 2 ^ 53 \<longrightarrow> numToString v = show_int n) \<and>
         (is_int_numeral (numToString v) = (\<bar>n\<bar> < 10 ^ 21)))"
      by (rule ms_written)
  qed
  from doc lit non val show ?thesis by (intro conjI)
qed

theorem document_framing_witness:
  "metadata_cc (chapters [Fin 5]) (Fin 10)
     = concat ['';FFMETADATA1\<newline>'',
         ''[CHAPTER]\<newline>TIMEBASE=1/1000\<newline>START=0\<newline>END=4999\<newline>title=Chapter 1\<newline>\<newline>'',
         ''[CHAPTER]\<newline>TIMEBASE=1/1000\<newline>START=5000\<newline>END=10000\<newline>title=Chapter 2\<newline>\<newline>''] \<and>
   is_int_numeral (numToString (START_ms [Fin 5] 1))"
proof -
  note f = document_framing [of "[Fin 5]" "Fin 10"]
  note v = f [THEN conjunct2, THEN conjunct2, THEN conjunct2, THEN conjunct2, THEN conjunct2,
    THEN conjunct2, THEN conjunct2, THEN conjunct2, rule_format, THEN conjunct2, rule_format]
  have s0: "START_ms [Fin 5] 0 = Fin (of_int 0)" and s1: "START_ms [Fin 5] 1 = Fin (of_int 5000)"
    and e0: "END_ms [Fin 5] (Fin 10) 0 = Fin (of_int 4999)"
    and e1: "END_ms [Fin 5] (Fin 10) 1 = Fin (of_int 10000)"
    by (simp_all add: START_ms_def END_ms_def num_eval)
  have i0: "0 \<le> length [Fin 5 :: jsnum]" and i1: "1 \<le> length [Fin 5 :: jsnum]" by simp_all
  have t1: "numToString (START_ms [Fin 5] 0) = show_int 0"
    by (rule v [OF i0 _ s0, THEN conjunct1, rule_format]) simp_all
  have t2: "numToString (START_ms [Fin 5] 1) = show_int 5000"
    by (rule v [OF i1 _ s1, THEN conjunct1, rule_format]) simp_all
  have t3: "numToString (END_ms [Fin 5] (Fin 10) 0) = show_int 4999"
    by (rule v [OF i0 _ e0, THEN conjunct1, rule_format]) simp_all
  have t4: "numToString (END_ms [Fin 5] (Fin 10) 1) = show_int 10000"
    by (rule v [OF i1 _ e1, THEN conjunct1, rule_format]) simp_all
  have u: "[0..<length [Fin 5 :: jsnum] + 1] = [0, 1]" by (simp add: upt_rec)
  have "is_int_numeral (numToString (START_ms [Fin 5] 1)) = (\<bar>5000 :: int\<bar> < 10 ^ 21)"
    by (rule v [OF i1 _ s1, THEN conjunct2]) simp
  then have n: "is_int_numeral (numToString (START_ms [Fin 5] 1))" by simp
  from f have "metadata_cc (chapters [Fin 5]) (Fin 10) =
     '';FFMETADATA1\<newline>'' @
     concat (map (\<lambda>i. chapter_record (numToString (START_ms [Fin 5] i))
                         (numToString (END_ms [Fin 5] (Fin 10) i))
                         (''Chapter '' @ show_nat (i + 1))) [0..<length [Fin 5 :: jsnum] + 1])"
    by (rule conjunct1)
  then have "metadata_cc (chapters [Fin 5]) (Fin 10) =
     '';FFMETADATA1\<newline>'' @
     chapter_record (show_int 0) (show_int 4999) (''Chapter '' @ show_nat 1) @
     chapter_record (show_int 5000) (show_int 10000) (''Chapter '' @ show_nat 2)"
    unfolding u by (simp only: list.map concat.simps append_Nil2 t1 t2 t3 t4 one_add_one
          add_0 append_assoc)
  then show ?thesis using n
    by (simp add: chapter_record_def show_int_def text_eval)
qed

text \<open>
  C5, as stated: a duration that is not a finite non-negative number makes the run fail
  before the document is written. \<^verbatim>\<open>src/unnamed/part_000\<close> tests \<^verbatim>\<open>isNaN\<close> only: for the
  probe outputs \<open>-5\<close> and \<open>Infinity\<close> it writes a document.
\<close>

theorem bad_duration_counterexample:
  "main_p0 \<lparr>exitCode = 0, stdout = [], stderr = []\<rparr>
           \<lparr>exitCode = 0, stdout = ''-5\<newline>'', stderr = []\<rparr>
     = Inr (concat ['';FFMETADATA1\<newline>'',
         ''[CHAPTER]\<newline>TIMEBASE=1/1000\<newline>START=0\<newline>END=-5000\<newline>title=Chapter 1\<newline>\<newline>'']) \<and>
   main_p0 \<lparr>exitCode = 0, stdout = [], stderr = []\<rparr>
           \<lparr>exitCode = 0, stdout = ''Infinity\<newline>'', stderr = []\<rparr>
     = Inr (concat ['';FFMETADATA1\<newline>'',
         ''[CHAPTER]\<newline>TIMEBASE=1/1000\<newline>START=0\<newline>END=Infinity\<newline>title=Chapter 1\<newline>\<newline>''])"
proof -
  have d: "parseFloat (trim ''-5\<newline>'') = Fin (- 5)"
    by (simp add: parse_eval text_eval num_eval)
  have i: "parseFloat (trim ''Infinity\<newline>'') = PInf"
    by (simp add: parse_eval text_eval)
  show ?thesis
    by (simp add: main_p0_def no_silence_p0 d i doc_eval text_eval num_eval)
qed

text \<open>
  C5, amended: in \<^verbatim>\<open>src/unnamed/part_000\<close>, when the output of the probe does not parse to
  a number (\<^verbatim>\<open>parseFloat\<close> gives \<open>NaN\<close>), no document is written, and the run that got
  status \<open>0\<close> from both tools fails with InvalidDuration. Another duration, infinite or
  negative, is not rejected.
\<close>

theorem part_000_rejects_nan_duration:
  assumes "isNaN (parseFloat (trim (stdout ffprobeProc)))"
  shows "(\<forall>doc. main_p0 silenceProc ffprobeProc \<noteq> Inr doc) \<and>
         (exitCode silenceProc = 0 \<and> exitCode ffprobeProc = 0 \<longrightarrow>
            main_p0 silenceProc ffprobeProc = Inl InvalidDuration)"
proof (intro conjI allI impI)
  fix doc
  show "main_p0 silenceProc ffprobeProc \<noteq> Inr doc"
    using assms by (simp add: main_p0_def Let_def)
next
  assume "exitCode silenceProc = 0 \<and> exitCode ffprobeProc = 0"
  then show "main_p0 silenceProc ffprobeProc = Inl InvalidDuration"
    using assms by (simp add: main_p0_def Let_def)
qed

theorem part_000_rejects_nan_duration_witness:
  "main_p0 \<lparr>exitCode = 0, stdout = [], stderr = ''silence_end: 5.0\<newline>''\<rparr>
           \<lparr>exitCode = 0, stdout = ''N/A\<newline>'', stderr = []\<rparr> = Inl InvalidDuration"
proof -
  have h: "isNaN (parseFloat (trim (stdout \<lparr>exitCode = 0, stdout = ''N/A\<newline>'', stderr = []\<rparr>)))"
    by (simp add: parse_eval text_eval)
  show ?thesis
    using part_000_rejects_nan_duration [OF h, of "\<lparr>exitCode = 0, stdout = [], stderr = ''silence_end: 5.0\<newline>''\<rparr>"]
    by simp
qed

text \<open>
  C6: \<^verbatim>\<open>src/chapter-cracker.ts\<close> has no statement that reads the exit status of the
  detection, and its run does not get as far as the diagnostic text: the first read of a
  stream throws. With status \<open>1\<close> and the diagnostic text \<open>Error initializing filter\<close> the
  run ends with the \<open>TypeError\<close>, as it does for every input, and not with the failure that
  carries the diagnostic text; \<^verbatim>\<open>src/unnamed/part_000\<close> ends with that failure.
\<close>

theorem detection_failure_not_reported:
  "main_cc \<lparr>exitCode = 1, stdout = [], stderr = ''Error initializing filter\<newline>''\<rparr>
           \<lparr>exitCode = 0, stdout = ''10\<newline>'', stderr = []\<rparr>
     = Inl TypeError \<and>
   main_cc \<lparr>exitCode = 1, stdout = [], stderr = ''Error initializing filter\<newline>''\<rparr>
           \<lparr>exitCode = 0, stdout = ''10\<newline>'', stderr = []\<rparr>
     \<noteq> Inl (ExternalToolFailure ''Error initializing filter\<newline>'') \<and>
   main_p0 \<lparr>exitCode = 1, stdout = [], stderr = ''Error initializing filter\<newline>''\<rparr>
           \<lparr>exitCode = 0, stdout = ''10\<newline>'', stderr = []\<rparr>
     = Inl (ExternalToolFailure ''Error initializing filter\<newline>'') \<and>
   main_cc silenceProc ffprobeProc = Inl TypeError"
  by (simp add: main_cc_def arrayBuffer_def main_p0_def)

text \<open>
  \<^verbatim>\<open>src/unnamed/part_000\<close> does what C6 says: a status other than \<open>0\<close> from the detection
  stops the run with the diagnostic stream, before any timestamp is read.
\<close>

theorem part_000_stops_on_detection_failure:
  "exitCode silenceProc \<noteq> 0 \<Longrightarrow>
   main_p0 silenceProc ffprobeProc = Inl (ExternalToolFailure (stderr silenceProc))"
  by (simp add: main_p0_def)

theorem part_000_stops_on_detection_failure_witness:
  "main_p0 \<lparr>exitCode = 1, stdout = [], stderr = ''Error initializing filter\<newline>''\<rparr>
           \<lparr>exitCode = 0, stdout = ''10\<newline>'', stderr = []\<rparr>
     = Inl (ExternalToolFailure ''Error initializing filter\<newline>'')"
  using part_000_stops_on_detection_failure
    [of "\<lparr>exitCode = 1, stdout = [], stderr = ''Error initializing filter\<newline>''\<rparr>"
        "\<lparr>exitCode = 0, stdout = ''10\<newline>'', stderr = []\<rparr>"]
  by simp

text \<open>
  C7, as stated: every chapter but possibly the first has its end after its start. Two
  silence ends at the same time, which the programs accept, give a second chapter that
  starts at 5000 and ends at 4999.
\<close>

theorem repeated_end_counterexample:
  "silenceEnds_cc ''silence_end: 5\<newline>silence_end: 5\<newline>'' = [Fin 5, Fin 5] \<and>
   startMs (chapters [Fin 5, Fin 5]) 1 = Fin 5000 \<and>
   endMs (chapters [Fin 5, Fin 5]) (Fin 10) 1 = Fin 4999 \<and>
   \<not> js_gt (endMs (chapters [Fin 5, Fin 5]) (Fin 10) 1) (startMs (chapters [Fin 5, Fin 5]) 1)"
  by (simp add: scan_eval parse_eval startMs_def endMs_def chapters_def text_eval num_eval)

text \<open>
  C7, amended: for silence ends that are not negative (those \<^verbatim>\<open>src/chapter-cracker.ts\<close>
  reads from any text are not), every chapter has a start that is not negative and a title
  that is not empty, and the titles are pairwise different. A chapter that is not the last
  has its end after its start, in the milliseconds written, when the start of the next
  chapter is at least two milliseconds later (both below \<open>2 ^ 53\<close>); the last chapter has,
  when the floor of a thousand times the duration is after its start. Otherwise the end need
  not be after the start.
\<close>

theorem chapter_invariants:
  assumes "\<forall>t\<in>set S. js_ge t (Fin 0)"
  shows "(\<forall>c\<in>set (chapters S). js_ge (start c) (Fin 0) \<and> title c \<noteq> []) \<and>
         distinct (map title (chapters S)) \<and>
         (\<forall>c\<in>set (chapters (silenceEnds_cc text)). js_ge (start c) (Fin 0)) \<and>
         (\<forall>i<length S. \<forall>a b.
            startMs (chapters S) i = Fin (of_int a) \<and>
            startMs (chapters S) (i + 1) = Fin (of_int b) \<and>
            0 \<le> a \<and> a + 2 \<le> b \<and> b < 2 ^ 53 \<longrightarrow>
            js_gt (endMs (chapters S) D i) (startMs (chapters S) i)) \<and>
         (js_gt (js_floor (js_mul D (Fin 1000))) (startMs (chapters S) (length S)) \<longrightarrow>
            js_gt (endMs (chapters S) D (length S)) (startMs (chapters S) (length S)))"
proof -
  have starts: "\<And>T c. \<forall>t\<in>set T. js_ge t (Fin 0) \<Longrightarrow> c \<in> set (chapters T) \<Longrightarrow>
                  js_ge (start c) (Fin 0)"
  proof -
    fix T c assume T: "\<forall>t\<in>set T. js_ge t (Fin 0)" and c: "c \<in> set (chapters T)"
    from c have "start c \<in> set (map start (chapters T))" by simp
    then have "start c = Fin 0 \<or> start c \<in> set T" by (simp add: map_start_chapters)
    with T show "js_ge (start c) (Fin 0)" by auto
  qed
  have titles: "\<And>c. c \<in> set (chapters S) \<Longrightarrow> title c \<noteq> []"
  proof -
    fix c assume "c \<in> set (chapters S)"
    then have "title c \<in> set (map title (chapters S))" by simp
    then show "title c \<noteq> []" unfolding map_title_chapters by auto
  qed
  have "inj_on (\<lambda>k. ''Chapter '' @ show_nat (k + 1)) (set [0..<length S + 1])"
    by (rule inj_onI) (auto dest: show_nat_inj)
  then have dist: "distinct (map title (chapters S))"
    unfolding map_title_chapters by (simp add: distinct_map del: upt_Suc)
  have cc: "\<forall>t\<in>set (silenceEnds_cc text). js_ge t (Fin 0)"
    using strict_pattern_nonneg by simp
  have mid: "\<And>i a b. i < length S \<Longrightarrow> startMs (chapters S) i = Fin (of_int a) \<Longrightarrow>
        startMs (chapters S) (i + 1) = Fin (of_int b) \<Longrightarrow> 0 \<le> a \<Longrightarrow> a + 2 \<le> b \<Longrightarrow>
        b < 2 ^ 53 \<Longrightarrow> js_gt (endMs (chapters S) D i) (startMs (chapters S) i)"
  proof -
    fix i a b
    assume i: "i < length S" and a: "startMs (chapters S) i = Fin (of_int a)"
      and b: "startMs (chapters S) (i + 1) = Fin (of_int b)"
      and r: "0 \<le> a" "a + 2 \<le> b" "b < 2 ^ 53"
    have "endMs (chapters S) D i = js_sub (startMs (chapters S) (i + 1)) (Fin 1)"
      using i by (simp add: endMs_def startMs_def length_chapters)
    also have "\<dots> = round_double (of_int (b - 1))" using b by simp
    also have "\<dots> = Fin (of_int (b - 1))" using r by (intro round_double_int) simp
    finally show "js_gt (endMs (chapters S) D i) (startMs (chapters S) i)"
      using r by (simp add: a)
  qed
  have last: "endMs (chapters S) D (length S) = js_floor (js_mul D (Fin 1000))"
    by (simp add: endMs_def length_chapters)
  show ?thesis
    using starts [OF assms] starts [OF cc] titles dist mid by (auto simp: last)
qed

theorem chapter_invariants_witness:
  "js_gt (endMs (chapters [Fin 5, Fin 10]) (Fin 20) 0) (startMs (chapters [Fin 5, Fin 10]) 0) \<and>
   distinct (map title (chapters [Fin 5, Fin 10]))"
proof -
  have h: "\<forall>t\<in>set [Fin 5, Fin 10]. js_ge t (Fin 0)" by simp
  have s: "startMs (chapters [Fin 5, Fin 10]) 0 = Fin (of_int 0) \<and>
           startMs (chapters [Fin 5, Fin 10]) (0 + 1) = Fin (of_int 5000) \<and>
           (0::int) \<le> 0 \<and> (0::int) + 2 \<le> 5000 \<and> (5000::int) < 2 ^ 53"
    by (simp add: startMs_def chapters_def num_eval)
  note inv = chapter_invariants [OF h, of "[]" "Fin 20"]
  have l: "0 < length [Fin 5, Fin 10 :: jsnum]" by simp
  from inv have d: "distinct (map title (chapters [Fin 5, Fin 10]))" by blast
  from inv have "\<forall>i<length [Fin 5, Fin 10 :: jsnum]. \<forall>a b.
            startMs (chapters [Fin 5, Fin 10]) i = Fin (of_int a) \<and>
            startMs (chapters [Fin 5, Fin 10]) (i + 1) = Fin (of_int b) \<and>
            0 \<le> a \<and> a + 2 \<le> b \<and> b < 2 ^ 53 \<longrightarrow>
            js_gt (endMs (chapters [Fin 5, Fin 10]) (Fin 20) i) (startMs (chapters [Fin 5, Fin 10]) i)"
    by blast
  from this [rule_format, of 0 0 5000, OF l s] d show ?thesis by simp
qed

text \<open>
  C8: the group \<^verbatim>\<open>[\d.]+\<close> of \<^verbatim>\<open>src/unnamed/part_000\<close> matches a point that stands alone,
  which \<^verbatim>\<open>parseFloat\<close> reads as \<open>NaN\<close>; the timestamp \<open>NaN\<close> is pushed. The group
  \<^verbatim>\<open>\d+\.?\d*\<close> of \<^verbatim>\<open>src/chapter-cracker.ts\<close> does not match there.
\<close>

theorem loose_pattern_yields_nan:
  "silenceEnds_p0 ''silence_end: .'' = [NaN] \<and>
   silenceStarts_p0 ''silence_start: ..'' = [NaN] \<and>
   silenceEnds_cc ''silence_end: .'' = [] \<and>
   silenceStarts_cc ''silence_start: ..'' = []"
proof -
  have point: "parseFloat ''.'' = NaN" "parseFloat ''..'' = NaN"
    by (simp_all add: parse_eval text_eval)
  have "silenceEnds_p0 ''silence_end: .'' = [parseFloat ''.'']"
    by (simp add: scan_eval text_eval)
  moreover have "silenceStarts_p0 ''silence_start: ..'' = [parseFloat ''..'']"
    by (simp add: scan_eval text_eval)
  moreover have "silenceEnds_cc ''silence_end: .'' = []"
    by (simp add: scan_eval text_eval)
  moreover have "silenceStarts_cc ''silence_start: ..'' = []"
    by (simp add: scan_eval text_eval)
  ultimately show ?thesis by (simp add: point)
qed


text \<open>
  The group of \<^verbatim>\<open>src/chapter-cracker.ts\<close> does what C8 says: every timestamp it yields, a
  silence start or a silence end, is a number and not \<open>NaN\<close>, in any text.
\<close>

theorem strict_pattern_never_nan:
  "\<forall>t\<in>set (silenceStarts_cc text) \<union> set (silenceEnds_cc text). \<not> isNaN t \<and> js_ge t (Fin 0)"
  by (auto simp: silenceStarts_cc_def silenceEnds_cc_def
        dest: exec_strict_nonneg js_ge_not_nan)

theorem strict_pattern_never_nan_witness:
  "\<not> isNaN (Fin 5) \<and> js_ge (Fin 5) (Fin 0)"
proof -
  have "silenceEnds_cc ''silence_end: 5.0\<newline>'' = [Fin 5]"
    by (simp add: scan_eval parse_eval text_eval num_eval)
  then have "Fin 5 \<in> set (silenceStarts_cc ''silence_end: 5.0\<newline>'')
                 \<union> set (silenceEnds_cc ''silence_end: 5.0\<newline>'')" by simp
  with strict_pattern_never_nan [of "''silence_end: 5.0\<newline>''"] show ?thesis by blast
qed




text \<open>
  C10, as stated: for every report text and duration the extraction, the inference and the
  encoding of the two programs give the same document. For the report \<open>silence_end: .5\<close>
  they do not: the pattern of \<^verbatim>\<open>src/chapter-cracker.ts\<close> finds no timestamp and its document
  has one chapter, the pattern of \<^verbatim>\<open>src/unnamed/part_000\<close> reads \<open>0.5\<close> and its document has
  two.
\<close>

theorem variants_differ_counterexample:
  "silenceEnds_cc ''silence_end: .5\<newline>'' = [] \<and>
   silenceEnds_p0 ''silence_end: .5\<newline>'' = [Fin (1 / 2)] \<and>
   metadata_cc (chapters (silenceEnds_cc ''silence_end: .5\<newline>'')) (Fin 10)
     = concat ['';FFMETADATA1\<newline>'',
         ''[CHAPTER]\<newline>TIMEBASE=1/1000\<newline>START=0\<newline>END=10000\<newline>title=Chapter 1\<newline>\<newline>''] \<and>
   metadata_p0 (chapters (silenceEnds_p0 ''silence_end: .5\<newline>'')) (Fin 10)
     = concat ['';FFMETADATA1\<newline>'',
         ''[CHAPTER]\<newline>TIMEBASE=1/1000\<newline>START=0\<newline>END=499\<newline>title=Chapter 1\<newline>\<newline>'',
         ''[CHAPTER]\<newline>TIMEBASE=1/1000\<newline>START=500\<newline>END=10000\<newline>title=Chapter 2\<newline>\<newline>''] \<and>
   metadata_cc (chapters (silenceEnds_cc ''silence_end: .5\<newline>'')) (Fin 10)
     \<noteq> metadata_p0 (chapters (silenceEnds_p0 ''silence_end: .5\<newline>'')) (Fin 10)"
proof -
  have q: "quotient_of (1 / 2) = (1, 2)" by code_simp
  have half: "round_double (1 / 2) = Fin (1 / 2)"
    by (simp add: round_double_def floor_log_def q ndigits.simps bpow_def pow2_def
          round_even_def Let_def)
  have cc: "silenceEnds_cc ''silence_end: .5\<newline>'' = []"
    by (simp add: scan_eval text_eval)
  have p0: "silenceEnds_p0 ''silence_end: .5\<newline>'' = [Fin (1 / 2)]"
    by (simp add: scan_eval parse_eval text_eval half)
  have a: "metadata_cc (chapters []) (Fin 10)
     = concat ['';FFMETADATA1\<newline>'',
         ''[CHAPTER]\<newline>TIMEBASE=1/1000\<newline>START=0\<newline>END=10000\<newline>title=Chapter 1\<newline>\<newline>'']"
    by (simp add: doc_eval text_eval num_eval)
  have b: "metadata_p0 (chapters [Fin (1 / 2)]) (Fin 10)
     = concat ['';FFMETADATA1\<newline>'',
         ''[CHAPTER]\<newline>TIMEBASE=1/1000\<newline>START=0\<newline>END=499\<newline>title=Chapter 1\<newline>\<newline>'',
         ''[CHAPTER]\<newline>TIMEBASE=1/1000\<newline>START=500\<newline>END=10000\<newline>title=Chapter 2\<newline>\<newline>'']"
    by (simp add: doc_eval text_eval num_eval)
  show ?thesis unfolding cc p0 a b by simp
qed

text \<open>
  C10, amended: the two encoders build the same document from the same chapters and
  duration, and the chapters are built by the same statements; and for every report text in
  which no \<open>silence_end:\<close> is followed, after any white space, by a point, the two scans
  read the same silence ends, so that for every duration the extraction, the inference and
  the encoding of the two programs give the same document.
\<close>

theorem variants_agree:
  assumes "dot_free ''silence_end:'' silenceStderr"
  shows "metadata_p0 chs D = metadata_cc chs D \<and>
         silenceEnds_p0 silenceStderr = silenceEnds_cc silenceStderr \<and>
         metadata_p0 (chapters (silenceEnds_p0 silenceStderr)) D
           = metadata_cc (chapters (silenceEnds_cc silenceStderr)) D"
proof -
  have e: "silenceEnds_p0 silenceStderr = silenceEnds_cc silenceStderr"
    unfolding silenceEnds_p0_def silenceEnds_cc_def
    by (rule exec_loose_eq_strict [OF _ _ assms]) (simp_all add: is_numch_def is_digit_def)
  show ?thesis
    by (simp add: e metadata_cc_eq metadata_p0_eq)
qed

theorem variants_agree_witness:
  "silenceEnds_p0 ''silence_end: 5.0\<newline>'' = silenceEnds_cc ''silence_end: 5.0\<newline>'' \<and>
   silenceEnds_cc ''silence_end: 5.0\<newline>'' = [Fin 5] \<and>
   metadata_p0 (chapters (silenceEnds_p0 ''silence_end: 5.0\<newline>'')) (Fin 10)
     = metadata_cc (chapters (silenceEnds_cc ''silence_end: 5.0\<newline>'')) (Fin 10)"
proof -
  have h: "dot_free ''silence_end:'' ''silence_end: 5.0\<newline>''"
    by (simp add: no_dot_here_def is_space_def)
  have v: "silenceEnds_cc ''silence_end: 5.0\<newline>'' = [Fin 5]"
    by (simp add: scan_eval parse_eval text_eval num_eval)
  from variants_agree [OF h, where D = "Fin 10"] v show ?thesis by simp
qed

end
